theory Spec2Isabelle
  imports Complex_Main "HOL-Library.Word"
begin

unbundle bit_operations_syntax

section \<open>Buffers and the runtime operations the library calls\<close>

text \<open>
  A Node.js \<open>Buffer\<close> is a list of bytes. The operations below are the ones of the
  runtime that the sources call; each is written with the behaviour it has at the
  call sites (clipping, \<open>undefined\<close> beyond the end, the exceptions it raises).
\<close>

type_synonym byte = "8 word"
type_synonym buffer = "byte list"

text \<open>The exceptions of the runtime that the modelled calls can raise.\<close>

datatype js_error =
    ERR_CRYPTO_INVALID_KEYLEN
  | ERR_WRONG_FINAL_BLOCK_LENGTH
  | ERR_OUT_OF_RANGE
  | ERR_BUFFER_OUT_OF_BOUNDS

text \<open>\<open>Buffer.alloc(n)\<close>: \<open>n\<close> zero bytes.\<close>

definition alloc :: "nat \<Rightarrow> buffer" where
  "alloc n = replicate n 0"

text \<open>\<open>buf[i]\<close>: the byte, or \<open>undefined\<close> (here \<open>None\<close>) beyond the end.\<close>

definition byte_at :: "buffer \<Rightarrow> nat \<Rightarrow> byte option" where
  "byte_at buf i = (if i < length buf then Some (buf ! i) else None)"

text \<open>\<open>buf[i] || 0\<close>: \<open>undefined\<close> and 0 both give 0.\<close>

definition or_zero :: "byte option \<Rightarrow> byte" where
  "or_zero v = (case v of None \<Rightarrow> 0 | Some b \<Rightarrow> b)"

text \<open>\<open>buf.slice(start, end)\<close> for \<open>0 \<le> start\<close>: clipped to the buffer.\<close>

definition slice_buf :: "buffer \<Rightarrow> nat \<Rightarrow> nat \<Rightarrow> buffer" where
  "slice_buf buf start end' = take (end' - start) (drop start buf)"

text \<open>
  \<open>source.copy(target, targetStart, sourceStart, sourceEnd)\<close>, returning the target
  after the copy: nothing is copied when the target start is beyond the target or the
  source range is empty, a source start beyond the source raises, and the range is
  clipped to what the source has and the target can take.
\<close>

definition copy_buf :: "buffer \<Rightarrow> buffer \<Rightarrow> nat \<Rightarrow> nat \<Rightarrow> nat \<Rightarrow> js_error + buffer" where
  "copy_buf source target targetStart sourceStart sourceEnd =
     (if targetStart \<ge> length target \<or> sourceStart \<ge> sourceEnd then Inr target
      else if sourceStart > length source then Inl ERR_OUT_OF_RANGE
      else
        let nb = min (min (sourceEnd - sourceStart) (length target - targetStart))
                     (length source - sourceStart);
            chunk = take nb (drop sourceStart source)
        in Inr (take targetStart target @ chunk @ drop (targetStart + nb) target))"

subsection \<open>The block cipher\<close>

text \<open>
  AES-128 itself belongs to the runtime's cryptographic library, not to this
  repository: it is a parameter, a pair of functions from a 128-bit key and a 128-bit
  block to a 128-bit block. Nothing below depends on which functions they are.
\<close>

type_synonym block = "128 word"

record block_cipher =
  encrypt_block :: "block \<Rightarrow> block \<Rightarrow> block"
  decrypt_block :: "block \<Rightarrow> block \<Rightarrow> block"

text \<open>Sixteen bytes as one block, most significant byte first, and back.\<close>

definition block_of_bytes :: "buffer \<Rightarrow> block" where
  "block_of_bytes bs = foldl (\<lambda>acc b. push_bit 8 acc OR ucast b) 0 bs"

definition bytes_of_block :: "block \<Rightarrow> buffer" where
  "bytes_of_block w = map (\<lambda>i. ucast (drop_bit (8 * (15 - i)) w)) [0..<16]"

text \<open>
  \<open>crypto.createCipheriv('aes-128-ecb', key, null)\<close> (and \<open>createDecipheriv\<close>):
  raises unless the key has 16 bytes.
\<close>

definition createCipheriv :: "buffer \<Rightarrow> js_error + block" where
  "createCipheriv key =
     (if length key \<noteq> 16 then Inl ERR_CRYPTO_INVALID_KEYLEN else Inr (block_of_bytes key))"

text \<open>
  \<open>Buffer.concat([cipher.update(data), cipher.final()])\<close> with
  \<open>setAutoPadding(false)\<close>: each 16-byte block goes through the block function;
  \<open>final()\<close> raises when the data is not a whole number of blocks; no data gives
  an empty buffer.
\<close>

definition update_final :: "(block \<Rightarrow> block) \<Rightarrow> buffer \<Rightarrow> js_error + buffer" where
  "update_final f data =
     (if length data mod 16 \<noteq> 0 then Inl ERR_WRONG_FINAL_BLOCK_LENGTH
      else Inr (concat (map (\<lambda>i. bytes_of_block (f (block_of_bytes (slice_buf data (16 * i) (16 * i + 16)))))
                            [0..<length data div 16])))"

text \<open>The three lines that every encryption in \<open>crypto.ts\<close> repeats.\<close>

definition aes_128_ecb_encrypt :: "block_cipher \<Rightarrow> buffer \<Rightarrow> buffer \<Rightarrow> js_error + buffer" where
  "aes_128_ecb_encrypt c key data =
     (case createCipheriv key of
        Inl e \<Rightarrow> Inl e
      | Inr k \<Rightarrow> update_final (encrypt_block c k) data)"

section \<open>\<open>src/utils/crypto.ts\<close>\<close>

text \<open>\<open>xor\<close>: the loop fills a fresh buffer of the longer length.\<close>

definition xor_buf :: "buffer \<Rightarrow> buffer \<Rightarrow> buffer" where
  "xor_buf bytes1 bytes2 =
     fold (\<lambda>i result. result[i := or_zero (byte_at bytes1 i) XOR or_zero (byte_at bytes2 i)])
          [0..<max (length bytes1) (length bytes2)]
          (alloc (max (length bytes1) (length bytes2)))"

text \<open>
  \<open>shiftLeft\<close>: the loop runs from the last index down to 0; the first argument
  counts the indices still to do, so the index of this round is one less.
  \<open>((byte << 1) | overflow) & 0xFF\<close> is computed on 32 bits, as the source does.
\<close>

fun shiftLeft_loop :: "nat \<Rightarrow> buffer \<Rightarrow> buffer \<Rightarrow> 32 word \<Rightarrow> buffer" where
  "shiftLeft_loop 0 buffer result overflow = result"
| "shiftLeft_loop (Suc i) buffer result overflow =
     (case byte_at buffer i of
        None \<Rightarrow> shiftLeft_loop i buffer result overflow
      | Some byte \<Rightarrow>
          shiftLeft_loop i buffer
            (result[i := ucast ((push_bit 1 (ucast byte :: 32 word) OR overflow) AND 0xFF)])
            (drop_bit 7 ((ucast byte :: 32 word) AND 0x80)))"

definition shiftLeft :: "buffer \<Rightarrow> buffer" where
  "shiftLeft buffer = shiftLeft_loop (length buffer) buffer (alloc (length buffer)) 0"

record Subkeys =
  k1 :: buffer
  k2 :: buffer

text \<open>\<open>l[0] !== undefined && (l[0] & 0x80)\<close>\<close>

definition top_bit_set :: "buffer \<Rightarrow> bool" where
  "top_bit_set l = (case byte_at l 0 of None \<Rightarrow> False | Some b \<Rightarrow> b AND 0x80 \<noteq> 0)"

text \<open>\<open>const rb = Buffer.alloc(16); rb[15] = 0x87\<close>\<close>

definition rb :: buffer where
  "rb = (alloc 16)[15 := 0x87]"

definition generateSubkeys :: "block_cipher \<Rightarrow> buffer \<Rightarrow> js_error + Subkeys" where
  "generateSubkeys c key =
     (case aes_128_ecb_encrypt c key (alloc 16) of
        Inl e \<Rightarrow> Inl e
      | Inr l \<Rightarrow>
          let k1 = shiftLeft l;
              k1 = (if top_bit_set l then xor_buf k1 rb else k1);
              k2 = shiftLeft k1;
              k2 = (if top_bit_set k1 then xor_buf k2 rb else k2)
          in Inr \<lparr>k1 = k1, k2 = k2\<rparr>)"

text \<open>The loop over the full blocks before the last one.\<close>

function cmac_loop ::
  "block_cipher \<Rightarrow> buffer \<Rightarrow> buffer \<Rightarrow> nat \<Rightarrow> nat \<Rightarrow> buffer \<Rightarrow> js_error + buffer" where
  "cmac_loop c key data fullBlocks i x =
     (if i < fullBlocks then
        (let block = slice_buf data (i * 16) ((i + 1) * 16);
             y = xor_buf x block
         in case aes_128_ecb_encrypt c key y of
              Inl e \<Rightarrow> Inl e
            | Inr x' \<Rightarrow> cmac_loop c key data fullBlocks (i + 1) x')
      else Inr x)"
  by pat_completeness auto
termination
  by (relation "measure (\<lambda>(c, key, data, fullBlocks, i, x). fullBlocks - i)") auto

definition calculateCmac :: "block_cipher \<Rightarrow> buffer \<Rightarrow> buffer \<Rightarrow> js_error + buffer" where
  "calculateCmac c key data =
     (case generateSubkeys c key of
        Inl e \<Rightarrow> Inl e
      | Inr sk \<Rightarrow>
     (case createCipheriv key of
        Inl e \<Rightarrow> Inl e
      | Inr _ \<Rightarrow>
     (let blockSize = 16;
          n = (if length data = 0 then 1 else nat \<lceil>real (length data) / real blockSize\<rceil>);
          lastBlockComplete = (length data \<noteq> 0 \<and> length data mod blockSize = 0);
          lastBlock = alloc blockSize
      in
     (case
        (if lastBlockComplete then
           (let startIndex = (n - 1) * blockSize
            in copy_buf data lastBlock 0 startIndex (startIndex + blockSize))
         else
           (let startIndex = (if length data = 0 then 0 else (n - 1) * blockSize);
                rem = (if length data = 0 then 0 else length data - startIndex)
            in case (if rem > 0 then copy_buf data lastBlock 0 startIndex (startIndex + rem)
                     else Inr lastBlock) of
                 Inl e \<Rightarrow> Inl e
               | Inr lastBlock \<Rightarrow> Inr (lastBlock[rem := 0x80])))
      of
        Inl e \<Rightarrow> Inl e
      | Inr lastBlock \<Rightarrow>
     (let subkey = (if lastBlockComplete then k1 sk else k2 sk);
          mLast = xor_buf lastBlock subkey;
          x = alloc blockSize;
          fullBlocks = n - 1
      in
     (case cmac_loop c key data fullBlocks 0 x of
        Inl e \<Rightarrow> Inl e
      | Inr x \<Rightarrow> aes_128_ecb_encrypt c key (xor_buf x mLast)))))))"

text \<open>\<open>truncateCmac\<close>: a byte that is \<open>undefined\<close> leaves the zero of the fresh buffer.\<close>

definition truncateCmac :: "buffer \<Rightarrow> buffer" where
  "truncateCmac cmac =
     fold (\<lambda>i result. case byte_at cmac (i * 2 + 1) of
                          None \<Rightarrow> result
                        | Some byte \<Rightarrow> result[i := byte])
          [0..<8] (alloc 8)"

section \<open>Strings\<close>

text \<open>
  A string is a list of characters. \<open>toUpperCase\<close> is modelled on the letters
  \<open>a\<close> to \<open>z\<close>, which is all it does to hexadecimal text; no statement below
  depends on what it does to other characters.
\<close>

definition toUpperCase_char :: "char \<Rightarrow> char" where
  "toUpperCase_char ch =
     (case map_of (zip ''abcdefghijklmnopqrstuvwxyz'' ''ABCDEFGHIJKLMNOPQRSTUVWXYZ'') ch of
        None \<Rightarrow> ch
      | Some u \<Rightarrow> u)"

definition toUpperCase :: "string \<Rightarrow> string" where
  "toUpperCase s = map toUpperCase_char s"

text \<open>\<open>buf.toString('hex')\<close>: two lower-case digits for each byte.\<close>

definition hex_digit :: "nat \<Rightarrow> char" where
  "hex_digit d = ''0123456789abcdef'' ! d"

definition toString_hex :: "buffer \<Rightarrow> string" where
  "toString_hex buf = concat (map (\<lambda>b. [hex_digit (unat b div 16), hex_digit (unat b mod 16)]) buf)"

text \<open>
  \<open>Buffer.from(s, 'hex')\<close>: pairs of hexadecimal digits, in either case, up to the
  first pair that is not one; a last single character is dropped. It never raises.
\<close>

definition hex_value :: "char \<Rightarrow> nat option" where
  "hex_value ch =
     map_of (zip ''0123456789abcdefABCDEF''
                 [0, 1, 2, 3, 4, 5, 6, 7, 8, 9, 10, 11, 12, 13, 14, 15, 10, 11, 12, 13, 14, 15]) ch"

fun from_hex :: "string \<Rightarrow> buffer" where
  "from_hex (a # b # rest) =
     (case hex_value a of
        None \<Rightarrow> []
      | Some h \<Rightarrow>
          (case hex_value b of
             None \<Rightarrow> []
           | Some l \<Rightarrow> of_nat (16 * h + l) # from_hex rest))"
| "from_hex _ = []"

section \<open>Numbers written to and read from buffers\<close>

text \<open>
  \<open>buf.readUIntLE(offset, byteLength)\<close>: raises when the bytes are not all inside
  the buffer.
\<close>

definition readUIntLE :: "buffer \<Rightarrow> nat \<Rightarrow> nat \<Rightarrow> js_error + nat" where
  "readUIntLE buf offset byteLength =
     (if byteLength < 1 \<or> 6 < byteLength then Inl ERR_OUT_OF_RANGE
      else if length buf < offset + byteLength then Inl ERR_BUFFER_OUT_OF_BOUNDS
      else Inr (foldr (\<lambda>b acc. unat b + 256 * acc) (take byteLength (drop offset buf)) 0))"

text \<open>
  \<open>rc.writeUIntBE(value, 0, 3)\<close> on the fresh 3-byte buffer \<open>rc\<close>, returning the
  buffer. A JavaScript number is modelled as a real (\<open>NaN\<close> and the infinities are
  left out). The runtime raises a \<open>RangeError\<close> when \<open>value > 0xFFFFFF\<close> or
  \<open>value < 0\<close>, and checks nothing else: a value with a fraction is stored byte by
  byte, each store dropping the fraction.
\<close>

definition writeUIntBE3 :: "real \<Rightarrow> js_error + buffer" where
  "writeUIntBE3 v =
     (if v > 0xFFFFFF \<or> v < 0 then Inl ERR_OUT_OF_RANGE
      else
        let n = nat \<lfloor>v\<rfloor>
        in Inr [of_nat (n div 2 ^ 16), of_nat (n div 2 ^ 8), of_nat n])"

section \<open>\<open>src/utils/ntag424.ts\<close>\<close>

text \<open>
  \<open>decryptPiccData\<close>: whatever the cipher raises is caught and gives \<open>null\<close>
  (here \<open>None\<close>); the message written to the console is left out, here and in
  \<open>verifySdmAuth\<close>.
\<close>

definition decryptPiccData :: "block_cipher \<Rightarrow> buffer \<Rightarrow> buffer \<Rightarrow> buffer option" where
  "decryptPiccData c piccData sdmKey =
     (case (case createCipheriv sdmKey of
              Inl e \<Rightarrow> Inl e
            | Inr k \<Rightarrow> update_final (decrypt_block c k) piccData) of
        Inl e \<Rightarrow> None
      | Inr decrypted \<Rightarrow> Some decrypted)"

text \<open>
  The options: each property may be missing (\<open>None\<close>), and so may the whole
  argument; both default to \<open>true\<close>.
\<close>

record SdmSessionVectorOptions =
  uidMirroring :: "bool option"
  readCounter :: "bool option"

definition or_true :: "bool option \<Rightarrow> bool" where
  "or_true v = (case v of None \<Rightarrow> True | Some b \<Rightarrow> b)"

definition generateSdmSessionVector ::
  "buffer \<Rightarrow> buffer \<Rightarrow> real \<Rightarrow> SdmSessionVectorOptions option \<Rightarrow> js_error + buffer" where
  "generateSdmSessionVector purpose uid readCtr options =
     (let options = (case options of
                       None \<Rightarrow> \<lparr>uidMirroring = Some True, readCounter = Some True\<rparr>
                     | Some opts \<Rightarrow> opts);
          uidMirroring = or_true (uidMirroring options);
          readCounter = or_true (readCounter options)
      in case writeUIntBE3 readCtr of
           Inl e \<Rightarrow> Inl e
         | Inr rc \<Rightarrow>
             (let rc = rev rc;
                  vec = purpose @ [0x00, 0x01, 0x00, 0x80]
              in if purpose = [0xC3, 0x3C] then Inr (vec @ uid @ rc)
                 else if purpose = [0x3C, 0xC3] then
                   (let vec = (if uidMirroring then vec @ uid else vec);
                        vec = (if readCounter then vec @ rc else vec)
                    in Inr vec)
                 else Inr vec))"

definition generateSdmSessionKey ::
  "block_cipher \<Rightarrow> buffer \<Rightarrow> buffer \<Rightarrow> buffer \<Rightarrow> real \<Rightarrow> SdmSessionVectorOptions option
     \<Rightarrow> js_error + buffer" where
  "generateSdmSessionKey c fileReadKey purpose uid readCtr options =
     (case generateSdmSessionVector purpose uid readCtr options of
        Inl e \<Rightarrow> Inl e
      | Inr sessionVector \<Rightarrow>
          if length sessionVector < 16 then
            (let padding = alloc (16 - length sessionVector)
             in calculateCmac c fileReadKey (sessionVector @ padding))
          else calculateCmac c fileReadKey sessionVector)"

text \<open>
  \<open>extractUidAndCounter\<close> stands after the two session functions here, so that
  their parameter \<open>uid\<close> is not read as the field of the record below. Its argument
  has the type \<open>Buffer\<close>, so the test \<open>!decrypted\<close> is false and only the length
  decides.
\<close>

record UidAndCounter =
  uid :: buffer
  counter :: buffer
  uidHex :: string
  counterInt :: nat

definition extractUidAndCounter :: "buffer \<Rightarrow> js_error + UidAndCounter option" where
  "extractUidAndCounter decrypted =
     (if length decrypted < 10 then Inr None
      else
        (case (if length decrypted \<ge> 11
               then Some (slice_buf decrypted 1 8, slice_buf decrypted 8 11)
               else if length decrypted \<ge> 10
               then Some (slice_buf decrypted 0 7, slice_buf decrypted 7 10)
               else None) of
           None \<Rightarrow> Inr None
         | Some (decryptedUid, decryptedCounter) \<Rightarrow>
             (let decryptedUidHex = toUpperCase (toString_hex decryptedUid)
              in case readUIntLE decryptedCounter 0 3 of
                   Inl e \<Rightarrow> Inl e
                 | Inr decryptedCounterInt \<Rightarrow>
                     Inr (Some \<lparr>uid = decryptedUid, counter = decryptedCounter,
                                uidHex = decryptedUidHex, counterInt = decryptedCounterInt\<rparr>))))"

section \<open>\<open>src/index.ts\<close>\<close>

text \<open>
  The result object: a property that is not set is \<open>None\<close>. \<open>res_method\<close> is
  the property \<open>method\<close>, which is a string or \<open>null\<close> when it is set;
  \<open>res_uid\<close> and \<open>res_counter\<close> are the properties \<open>uid\<close> and \<open>counter\<close>.
\<close>

record SdmAuthResult =
  success :: bool
  res_uid :: "string option"
  res_counter :: "nat option"
  res_method :: "string option option"
  calculatedCmac :: "string option"
  providedCmac :: "string option"
  error :: "string option"

text \<open>\<open>{ success: false, error: msg }\<close>\<close>

definition failure :: "string \<Rightarrow> SdmAuthResult" where
  "failure msg =
     \<lparr>success = False, res_uid = None, res_counter = None, res_method = None,
      calculatedCmac = None, providedCmac = None, error = Some msg\<rparr>"

text \<open>\<open>!s\<close> for a string that may be \<open>undefined\<close>: true when it is, and for \<open>''\<close>.\<close>

definition falsy :: "string option \<Rightarrow> bool" where
  "falsy s = (case s of None \<Rightarrow> True | Some t \<Rightarrow> t = [])"

text \<open>
  The text of \<open>error.message\<close>. The wording is the runtime's; no statement below
  depends on it, and \<open>verifySdmAuth_try_total\<close> shows that \<open>verifySdmAuth\<close> never
  comes to use it.
\<close>

definition message :: "js_error \<Rightarrow> string" where
  "message e =
     (case e of
        ERR_CRYPTO_INVALID_KEYLEN \<Rightarrow> ''Invalid key length''
      | ERR_WRONG_FINAL_BLOCK_LENGTH \<Rightarrow> ''wrong final block length''
      | ERR_OUT_OF_RANGE \<Rightarrow> ''The value is out of range''
      | ERR_BUFFER_OUT_OF_BOUNDS \<Rightarrow> ''Attempt to access memory outside buffer bounds'')"

text \<open>
  The body of the \<open>try\<close> block. \<open>env\<close> is the value of the environment variable
  \<open>NTAG424_SDM_KEY\<close>.
\<close>

definition verifySdmAuth_try ::
  "block_cipher \<Rightarrow> string option \<Rightarrow> string \<Rightarrow> string \<Rightarrow> string option
     \<Rightarrow> js_error + SdmAuthResult" where
  "verifySdmAuth_try c env piccDataHex providedCmacHex sdmKeyHex =
     (let sdmKeyHex = (if falsy sdmKeyHex then env else sdmKeyHex)
      in if falsy sdmKeyHex then Inr (failure ''SDM key not configured'')
         else
           (let piccData = from_hex piccDataHex;
                providedCmac = toUpperCase providedCmacHex;
                sdmKey = from_hex (case sdmKeyHex of None \<Rightarrow> [] | Some k \<Rightarrow> k)
            in case decryptPiccData c piccData sdmKey of
                 None \<Rightarrow> Inr (failure ''PICC data decryption failed'')
               | Some decrypted \<Rightarrow>
            (case extractUidAndCounter decrypted of
                 Inl e \<Rightarrow> Inl e
               | Inr None \<Rightarrow> Inr (failure ''Failed to extract UID and counter'')
               | Inr (Some cmacData) \<Rightarrow>
            (case generateSdmSessionKey c sdmKey [0x3C, 0xC3] (uid cmacData)
                    (real (counterInt cmacData))
                    (Some \<lparr>uidMirroring = Some True, readCounter = Some True\<rparr>) of
                 Inl e \<Rightarrow> Inl e
               | Inr sessionMacKey \<Rightarrow>
            (case calculateCmac c sessionMacKey (alloc 0) of
                 Inl e \<Rightarrow> Inl e
               | Inr fullCmac \<Rightarrow>
            (let truncCmac = truncateCmac fullCmac;
                 calculatedCmac = toUpperCase (toString_hex truncCmac);
                 isValid = (calculatedCmac = providedCmac)
             in Inr \<lparr>success = isValid,
                      res_uid = Some (uidHex cmacData),
                      res_counter = Some (counterInt cmacData),
                      res_method = Some (if isValid then Some ''Full mirroring with empty data''
                                         else None),
                      calculatedCmac = Some calculatedCmac,
                      providedCmac = Some providedCmac,
                      error = None\<rparr>))))))"

text \<open>\<open>verifySdmAuth\<close>: the \<open>catch\<close> turns every exception into a failure result.\<close>

definition verifySdmAuth ::
  "block_cipher \<Rightarrow> string option \<Rightarrow> string \<Rightarrow> string \<Rightarrow> string option \<Rightarrow> SdmAuthResult" where
  "verifySdmAuth c env piccDataHex providedCmacHex sdmKeyHex =
     (case verifySdmAuth_try c env piccDataHex providedCmacHex sdmKeyHex of
        Inl e \<Rightarrow> failure (message e)
      | Inr r \<Rightarrow> r)"

section \<open>The specification's description of the CMAC engine\<close>

text \<open>
  The definitions of this section follow the words of the specification, not the
  code: they are what the code is compared with.

  \<open>Encrypt\<close>: the block cipher on one 16-byte block under a 16-byte key.
\<close>

definition Encrypt :: "block_cipher \<Rightarrow> buffer \<Rightarrow> buffer \<Rightarrow> buffer" where
  "Encrypt c key blk = bytes_of_block (encrypt_block c (block_of_bytes key) (block_of_bytes blk))"

text \<open>The 16-byte constant \<open>0x00...0087\<close>.\<close>

definition const_Rb :: buffer where
  "const_Rb = replicate 15 0 @ [0x87]"

text \<open>The XOR of two blocks, byte by byte.\<close>

definition xor_block :: "buffer \<Rightarrow> buffer \<Rightarrow> buffer" where
  "xor_block a b = map2 (XOR) a b"

text \<open>
  One subkey from the value before it: \<open>shiftLeft\<close>, XORed with the constant exactly
  when the top bit of that value is set.
\<close>

definition next_subkey :: "buffer \<Rightarrow> buffer" where
  "next_subkey v = (if bit (hd v) 7 then xor_block (shiftLeft v) const_Rb else shiftLeft v)"

definition spec_K1 :: "block_cipher \<Rightarrow> buffer \<Rightarrow> buffer" where
  "spec_K1 c key = next_subkey (Encrypt c key (replicate 16 0))"

definition spec_K2 :: "block_cipher \<Rightarrow> buffer \<Rightarrow> buffer" where
  "spec_K2 c key = next_subkey (spec_K1 c key)"

text \<open>
  The same step on the block read as one 128-bit number: doubling in the binary field of
  degree 128 with the polynomial \<open>0x87\<close>.
\<close>

definition dbl :: "block \<Rightarrow> block" where
  "dbl w = (if bit w 127 then push_bit 1 w XOR 0x87 else push_bit 1 w)"

text \<open>
  \<open>calculateCmac\<close> as the specification describes it: the number of blocks \<open>n\<close>,
  the last block (the final 16 bytes with K1 when the message is block-complete, the
  final partial block with the padding and K2 otherwise), the chain over the \<open>n - 1\<close>
  full blocks before it from the zero accumulator, and the final encryption.
\<close>

definition spec_n :: "buffer \<Rightarrow> nat" where
  "spec_n data = (if data = [] then 1 else (length data + 15) div 16)"

definition block_complete :: "buffer \<Rightarrow> bool" where
  "block_complete data \<longleftrightarrow> data \<noteq> [] \<and> 16 dvd length data"

definition spec_last_block :: "block_cipher \<Rightarrow> buffer \<Rightarrow> buffer \<Rightarrow> buffer" where
  "spec_last_block c key data =
     (if block_complete data then xor_block (drop (length data - 16) data) (spec_K1 c key)
      else
        let partial = drop (16 * (spec_n data - 1)) data
        in xor_block (partial @ [0x80] @ replicate (15 - length partial) 0) (spec_K2 c key))"

definition spec_chain :: "block_cipher \<Rightarrow> buffer \<Rightarrow> buffer \<Rightarrow> buffer" where
  "spec_chain c key data =
     foldl (\<lambda>X blk. Encrypt c key (xor_block X blk))
           (replicate 16 0)
           (map (\<lambda>i. take 16 (drop (16 * i) data)) [0..<spec_n data - 1])"

definition spec_cmac :: "block_cipher \<Rightarrow> buffer \<Rightarrow> buffer \<Rightarrow> buffer" where
  "spec_cmac c key data =
     Encrypt c key (xor_block (spec_chain c key data) (spec_last_block c key data))"

section \<open>The specification's description of the session vector and key\<close>

text \<open>
  The counter as three bytes, most significant first, and the little-endian sequence:
  the same bytes reversed.
\<close>

definition counter_BE :: "nat \<Rightarrow> buffer" where
  "counter_BE m = [of_nat (m div 2 ^ 16), of_nat (m div 2 ^ 8), of_nat m]"

definition counter_LE :: "nat \<Rightarrow> buffer" where
  "counter_LE m = rev (counter_BE m)"

text \<open>The two options, each true unless it is given as false.\<close>

definition opt_uidMirroring :: "SdmSessionVectorOptions option \<Rightarrow> bool" where
  "opt_uidMirroring options = (case options of None \<Rightarrow> True | Some opts \<Rightarrow> uidMirroring opts \<noteq> Some False)"

definition opt_readCounter :: "SdmSessionVectorOptions option \<Rightarrow> bool" where
  "opt_readCounter options = (case options of None \<Rightarrow> True | Some opts \<Rightarrow> readCounter opts \<noteq> Some False)"

text \<open>
  The session vector: the purpose, the constant, then the UID and the counter as the
  purpose and the options say.
\<close>

definition spec_vector :: "buffer \<Rightarrow> buffer \<Rightarrow> nat \<Rightarrow> SdmSessionVectorOptions option \<Rightarrow> buffer" where
  "spec_vector purpose u m options =
     purpose @ [0x00, 0x01, 0x00, 0x80] @
     (if purpose = [0xC3, 0x3C] then u @ counter_LE m
      else if purpose = [0x3C, 0xC3] then
        (if opt_uidMirroring options then u else []) @
        (if opt_readCounter options then counter_LE m else [])
      else [])"

text \<open>The vector padded on the right with zero bytes to 16 bytes when it is shorter.\<close>

definition pad16 :: "buffer \<Rightarrow> buffer" where
  "pad16 v = (if length v < 16 then v @ replicate (16 - length v) 0 else v)"

section \<open>When \<open>verifySdmAuth\<close> reaches the comparison\<close>

text \<open>The key text that \<open>verifySdmAuth\<close> uses: the argument, else the environment's.\<close>

definition resolved_key :: "string option \<Rightarrow> string option \<Rightarrow> string option" where
  "resolved_key env sdmKeyHex =
     (if falsy sdmKeyHex then (if falsy env then None else env) else sdmKeyHex)"

text \<open>
  The inputs on which no step before the comparison fails: a key is resolved and parses
  to 16 bytes, and the PICC data parses to whole blocks, at least 10 bytes of them.
\<close>

definition comparison_reached :: "string option \<Rightarrow> string \<Rightarrow> string option \<Rightarrow> bool" where
  "comparison_reached env piccDataHex sdmKeyHex =
     (case resolved_key env sdmKeyHex of
        None \<Rightarrow> False
      | Some k \<Rightarrow>
          length (from_hex k) = 16 \<and> 16 dvd length (from_hex piccDataHex)
          \<and> 10 \<le> length (from_hex piccDataHex))"

section \<open>A cipher for closed instances\<close>

text \<open>
  The theorems hold for every block cipher. Where an instance names one, it is this
  pair of functions; it is not AES, and no statement depends on it.
\<close>

definition sample_cipher :: block_cipher where
  "sample_cipher = \<lparr>encrypt_block = (\<lambda>k b. k XOR b), decrypt_block = (\<lambda>k b. k XOR b)\<rparr>"

section \<open>Auxiliary definitions of the proofs\<close>

text \<open>One round of the loop of \<open>shiftLeft\<close>: the byte it stores and the carry it keeps.\<close>

definition shl_byte :: "byte \<Rightarrow> 32 word \<Rightarrow> byte" where
  "shl_byte b ov = ucast ((push_bit 1 (ucast b :: 32 word) OR ov) AND 0xFF)"

definition carry_of :: "byte \<Rightarrow> 32 word" where
  "carry_of b = drop_bit 7 ((ucast b :: 32 word) AND 0x80)"

text \<open>
  The part of \<open>calculateCmac\<close> that builds \<open>lastBlock\<close>, named so that it can be
  reasoned about on its own (\<open>calculateCmac_last_block\<close> below shows that it is that part).
\<close>

definition code_last_block :: "buffer \<Rightarrow> js_error + buffer" where
  "code_last_block data =
     (let blockSize = 16;
          n = (if length data = 0 then 1 else nat \<lceil>real (length data) / real blockSize\<rceil>);
          lastBlockComplete = (length data \<noteq> 0 \<and> length data mod blockSize = 0);
          lastBlock = alloc blockSize
      in
        (if lastBlockComplete then
           (let startIndex = (n - 1) * blockSize
            in copy_buf data lastBlock 0 startIndex (startIndex + blockSize))
         else
           (let startIndex = (if length data = 0 then 0 else (n - 1) * blockSize);
                rem = (if length data = 0 then 0 else length data - startIndex)
            in case (if rem > 0 then copy_buf data lastBlock 0 startIndex (startIndex + rem)
                     else Inr lastBlock) of
                 Inl e \<Rightarrow> Inl e
               | Inr lastBlock \<Rightarrow> Inr (lastBlock[rem := 0x80]))))"

text \<open>The last block of the specification before the subkey is XORed in.\<close>

definition spec_last_plain :: "buffer \<Rightarrow> buffer" where
  "spec_last_plain data =
     (if block_complete data then drop (length data - 16) data
      else
        let partial = drop (16 * (spec_n data - 1)) data
        in partial @ [0x80] @ replicate (15 - length partial) 0)"

text \<open>One round of the chain of the CMAC, as the specification writes it.\<close>

abbreviation (input) chain_step :: "block_cipher \<Rightarrow> buffer \<Rightarrow> buffer \<Rightarrow> buffer \<Rightarrow> buffer" where
  "chain_step c key \<equiv> \<lambda>X blk. Encrypt c key (xor_block X blk)"

section \<open>Concrete inputs of the instances\<close>

definition key80 :: buffer where
  "key80 = [0x80, 0, 0, 0, 0, 0, 0, 0, 0, 0, 0, 0, 0, 0, 0, 0]"

text \<open>The CMAC of the repository's test of \<open>truncateCmac\<close>.\<close>

definition cmac_example :: buffer where
  "cmac_example = [0x12, 0x34, 0x56, 0x78, 0x90, 0xAB, 0xCD, 0xEF,
                   0x12, 0x34, 0x56, 0x78, 0x90, 0xAB, 0xCD, 0xEF]"

definition data17 :: buffer where
  "data17 = [1, 2, 3, 4, 5, 6, 7, 8, 9, 10, 11, 12, 13, 14, 15, 16, 17]"

text \<open>The digits of upper-case hexadecimal text, and the text of a buffer in them.\<close>

definition upper_hex_digits :: string where
  "upper_hex_digits = ''0123456789ABCDEF''"

definition upper_hex :: "buffer \<Rightarrow> string" where
  "upper_hex buf =
     concat (map (\<lambda>b. [upper_hex_digits ! (unat b div 16), upper_hex_digits ! (unat b mod 16)]) buf)"

definition uid_example :: buffer where
  "uid_example = [0x04, 0x12, 0x34, 0x56, 0x78, 0x90, 0xAB]"

text \<open>Options that leave the UID out of the session vector.\<close>

definition options_no_uid :: SdmSessionVectorOptions where
  "options_no_uid = \<lparr>uidMirroring = Some False, readCounter = None\<rparr>"

text \<open>The inputs of the repository's tests of \<open>verifySdmAuth\<close>, and one with two more characters.\<close>

definition picc_hex :: string where
  "picc_hex = ''1234567890ABCDEF1234567890ABCDEF''"

definition picc_hex_zz :: string where
  "picc_hex_zz = ''1234567890ABCDEF1234567890ABCDEFzz''"

definition key_hex :: string where
  "key_hex = ''00000000000000000000000000000000''"

section \<open>Properties\<close>

lemma fold_update_upt:
  "n \<le> length r \<Longrightarrow> fold (\<lambda>i r. r[i := f i]) [0..<n] r = map f [0..<n] @ drop n r"
proof (induction n)
  case 0
  then show ?case by simp
next
  case (Suc n)
  then have "fold (\<lambda>i r. r[i := f i]) [0..<Suc n] r = (map f [0..<n] @ drop n r)[n := f n]"
    by simp
  also have "\<dots> = map f [0..<n] @ (drop n r)[0 := f n]"
    by (simp add: list_update_append)
  also have "(drop n r)[0 := f n] = f n # drop (Suc n) r"
    using Suc.prems by (simp add: Cons_nth_drop_Suc [symmetric])
  finally show ?case by simp
qed

lemma length_alloc [simp]: "length (alloc n) = n"
  by (simp add: alloc_def)

lemma xor_buf_map:
  "xor_buf a b = map (\<lambda>i. or_zero (byte_at a i) XOR or_zero (byte_at b i)) [0..<max (length a) (length b)]"
  unfolding xor_buf_def by (subst fold_update_upt) simp_all

lemma length_xor_buf [simp]: "length (xor_buf a b) = max (length a) (length b)"
  by (simp add: xor_buf_map)

lemma xor_buf_map2:
  "length a = length b \<Longrightarrow> xor_buf a b = map2 (XOR) a b"
  by (rule nth_equalityI) (simp_all add: xor_buf_map byte_at_def or_zero_def)

lemma length_shiftLeft_loop [simp]:
  "length (shiftLeft_loop n buffer result ov) = length result"
  by (induction n arbitrary: result ov) (simp_all split: option.split)

lemma length_shiftLeft [simp]: "length (shiftLeft buffer) = length buffer"
  by (simp add: shiftLeft_def)

lemma length_bytes_of_block [simp]: "length (bytes_of_block w) = 16"
  by (simp add: bytes_of_block_def)

lemma update_final_block:
  "length data = 16 \<Longrightarrow> update_final f data = Inr (bytes_of_block (f (block_of_bytes data)))"
  by (simp add: update_final_def slice_buf_def)

lemma update_final_length:
  "update_final f data = Inr out \<Longrightarrow> length out = length data"
  by (auto simp: update_final_def length_concat comp_def sum_list_triv split: if_splits)

lemma shiftLeft_loop_nth:
  "n \<le> length buffer \<Longrightarrow> length result = length buffer \<Longrightarrow> j < length buffer \<Longrightarrow>
   shiftLeft_loop n buffer result ov ! j =
     (if j < n then shl_byte (buffer ! j) (if Suc j < n then carry_of (buffer ! Suc j) else ov)
      else result ! j)"
proof (induction n arbitrary: result ov)
  case 0
  then show ?case by simp
next
  case (Suc n)
  have n: "n < length buffer" using Suc.prems by simp
  show ?case
    using Suc.prems n
    by (simp add: byte_at_def Suc.IH shl_byte_def carry_of_def less_Suc_eq nth_list_update)
qed

lemma shiftLeft_nth:
  "j < length buffer \<Longrightarrow>
   shiftLeft buffer ! j =
     shl_byte (buffer ! j) (if Suc j < length buffer then carry_of (buffer ! Suc j) else 0)"
  by (simp add: shiftLeft_def shiftLeft_loop_nth)

lemma w80: "(0x80 :: 32 word) = 2 ^ 7" by simp
lemma wFF: "(0xFF :: 32 word) = mask 8" by (simp add: mask_eq_exp_minus_1)
lemma b80: "(0x80 :: byte) = 2 ^ 7" by simp

lemma bit_carry_of: "bit (carry_of b) m \<longleftrightarrow> m = 0 \<and> bit b 7"
  unfolding carry_of_def w80
  by (auto simp: bit_drop_bit_eq bit_and_iff bit_ucast_iff bit_exp_iff bit_1_iff)

lemma bit_shl_byte:
  "bit (shl_byte b ov) m \<longleftrightarrow> m < 8 \<and> ((0 < m \<and> bit b (m - 1)) \<or> bit ov m)"
proof -
  have "bit (ucast b * (2 :: 32 word)) m \<longleftrightarrow> 0 < m \<and> m < 32 \<and> bit b (m - 1)"
    using bit_double_iff [of "ucast b :: 32 word" m]
    by (auto simp: mult.commute bit_ucast_iff dest: bit_imp_le_length)
  then show ?thesis
    unfolding shl_byte_def wFF
    by (auto simp: bit_ucast_iff bit_and_iff bit_or_iff bit_mask_iff)
qed

lemma bit_shiftLeft_nth:
  "j < length buffer \<Longrightarrow>
   bit (shiftLeft buffer ! j) m \<longleftrightarrow>
     m < 8 \<and> (if m = 0 then Suc j < length buffer \<and> bit (buffer ! Suc j) 7 else bit (buffer ! j) (m - 1))"
  by (auto simp: shiftLeft_nth bit_shl_byte bit_carry_of)

lemma top_bit_set_iff: "top_bit_set l \<longleftrightarrow> l \<noteq> [] \<and> bit (l ! 0) 7"
proof -
  have "b AND 0x80 \<noteq> 0 \<longleftrightarrow> bit b 7" for b :: byte
    unfolding b80 by (simp add: bit_iff_and_push_bit_not_eq_0)
  then show ?thesis
    by (simp add: top_bit_set_def byte_at_def)
qed

lemma bit_push_or_byte:
  "bit (push_bit 8 (a :: block) OR ucast (b :: byte)) k \<longleftrightarrow>
     (if k < 8 then bit b k else k < 128 \<and> bit a (k - 8))"
proof -
  have "\<not> bit b k" if "8 \<le> k"
    using that bit_imp_le_length [of b k] by auto
  moreover have "k < 128" if "bit a (k - 8)" "8 \<le> k" "bit (push_bit 8 a) k"
    using that bit_imp_le_length [of "push_bit 8 a" k] by simp
  ultimately show ?thesis
    by (auto simp: bit_or_iff bit_push_bit_iff bit_ucast_iff possible_bit_def)
qed

lemma bit_foldl_bytes:
  "bit (foldl (\<lambda>acc b. push_bit 8 acc OR ucast b) a (bs :: buffer) :: block) n \<longleftrightarrow>
     n < 128 \<and> (if n < 8 * length bs then bit (bs ! (length bs - 1 - n div 8)) (n mod 8)
                else bit a (n - 8 * length bs))"
proof (induction bs arbitrary: a)
  case Nil
  show ?case using bit_imp_le_length [of a n] by auto
next
  case (Cons b bs)
  let ?k = "n - 8 * length bs"
  have step: "bit (foldl (\<lambda>acc b. push_bit 8 acc OR ucast b) a (b # bs) :: block) n \<longleftrightarrow>
      n < 128 \<and> (if n < 8 * length bs then bit (bs ! (length bs - 1 - n div 8)) (n mod 8)
                else bit (push_bit 8 a OR ucast b) ?k)"
    using Cons.IH [of "push_bit 8 a OR ucast b"] by simp
  show ?case
  proof (cases "n < 8 * length bs")
    case True
    then have "n div 8 < length bs" by simp
    then have "(b # bs) ! (length bs - n div 8) = bs ! (length bs - 1 - n div 8)"
      by (simp add: nth_Cons')
    with True show ?thesis unfolding step by simp
  next
    case False
    show ?thesis
    proof (cases "n < 8 * length bs + 8")
      case True
      with False have d: "n div 8 = length bs" by simp
      have m: "n mod 8 = ?k"
        using d minus_mult_div_eq_mod [of n 8] by simp
      from True False have k: "?k < 8" by simp
      from True False show ?thesis
        unfolding step bit_push_or_byte by (simp add: d m k)
    next
      case False
      then have k: "\<not> ?k < 8" "\<not> n < 8 * length bs" by simp_all
      have e: "?k - 8 = n - 8 * length (b # bs)" by simp
      have "n < 128 \<Longrightarrow> ?k < 128" by simp
      with False show ?thesis
        unfolding step bit_push_or_byte e by (auto simp: k)
    qed
  qed
qed

lemma bit_block_of_bytes:
  "length bs = 16 \<Longrightarrow>
   bit (block_of_bytes bs) n \<longleftrightarrow> n < 128 \<and> bit (bs ! (15 - n div 8)) (n mod 8)"
  by (auto simp: block_of_bytes_def bit_foldl_bytes dest: bit_imp_le_length)

lemma bytes_of_block_nth:
  "i < 16 \<Longrightarrow> bytes_of_block w ! i = ucast (drop_bit (8 * (15 - i)) w)"
  by (simp add: bytes_of_block_def)

lemma block_of_bytes_of_block [simp]: "block_of_bytes (bytes_of_block w) = w"
proof (rule bit_eqI)
  fix n
  assume "possible_bit TYPE(block) n"
  then have n: "n < 128" by (simp add: possible_bit_def)
  then have "15 - (15 - n div 8) = n div 8" by simp
  with n show "bit (block_of_bytes (bytes_of_block w)) n \<longleftrightarrow> bit w n"
    by (simp add: bit_block_of_bytes bytes_of_block_nth bit_ucast_iff bit_drop_bit_eq)
qed

lemma block_of_bytes_alloc [simp]: "block_of_bytes (alloc 16) = 0"
  by (rule bit_eqI) (simp add: bit_block_of_bytes alloc_def)

lemma bit_push_bit_1_block:
  "bit (push_bit 1 (w :: block)) n \<longleftrightarrow> 0 < n \<and> n < 128 \<and> bit w (n - 1)"
  unfolding bit_push_bit_iff by (auto simp: possible_bit_def dest: bit_imp_le_length)

lemma div_mod_pred_8:
  fixes n :: nat
  shows "n mod 8 = 0 \<Longrightarrow> 0 < n \<Longrightarrow>
           (n - Suc 0) div 8 = n div 8 - Suc 0 \<and> (n - Suc 0) mod 8 = 7 \<and> Suc 0 \<le> n div 8"
    and "n mod 8 \<noteq> 0 \<Longrightarrow>
           (n - Suc 0) div 8 = n div 8 \<and> (n - Suc 0) mod 8 = n mod 8 - Suc 0 \<and> 0 < n"
proof -
  assume a: "n mod 8 = 0" "0 < n"
  then obtain q where "n = 8 * q" by (auto simp: mod_eq_0_iff_dvd)
  with a obtain q' where q: "n = 8 * Suc q'" by (cases q) auto
  have "n - Suc 0 = 7 + q' * 8" using q by simp
  then have "(n - Suc 0) div 8 = q'" "(n - Suc 0) mod 8 = 7" by simp_all
  moreover have "n div 8 = Suc q'" using q by simp
  ultimately show "(n - Suc 0) div 8 = n div 8 - Suc 0 \<and> (n - Suc 0) mod 8 = 7 \<and> Suc 0 \<le> n div 8"
    by simp
next
  assume a: "n mod 8 \<noteq> 0"
  define q r where "q = n div 8" and "r = n mod 8"
  have n: "n = r + q * 8" by (simp add: q_def r_def)
  have r: "0 < r" "r < 8" using a by (simp_all add: r_def)
  then obtain r' where r': "r = Suc r'" by (cases r) auto
  have e: "n - Suc 0 = r' + q * 8" using n r' by simp
  have "(n - Suc 0) div 8 = q" "(n - Suc 0) mod 8 = r'" using r r' unfolding e by simp_all
  with r r' n show "(n - Suc 0) div 8 = n div 8 \<and> (n - Suc 0) mod 8 = n mod 8 - Suc 0 \<and> 0 < n"
    by (simp add: q_def [symmetric] r_def [symmetric])
qed

lemma block_of_bytes_shiftLeft:
  assumes "length bs = 16"
  shows "block_of_bytes (shiftLeft bs) = push_bit 1 (block_of_bytes bs)"
proof (rule bit_eqI)
  fix n
  assume "possible_bit TYPE(block) n"
  then have n: "n < 128" by (simp add: possible_bit_def)
  then have n': "n - Suc 0 < 128" by simp
  have "bit (block_of_bytes (shiftLeft bs)) n \<longleftrightarrow> 0 < n \<and> n < 128 \<and> bit (block_of_bytes bs) (n - 1)"
  proof (cases "n mod 8 = 0")
    case True
    show ?thesis
    proof (cases "n = 0")
      case True
      with assms show ?thesis
        by (simp add: bit_block_of_bytes bit_shiftLeft_nth)
    next
      case False
      with True div_mod_pred_8(1) [of n]
      have d: "(n - Suc 0) div 8 = n div 8 - Suc 0" and m: "(n - Suc 0) mod 8 = 7" and p: "Suc 0 \<le> n div 8"
        by simp_all
      from n p have s: "Suc (15 - n div 8) = 15 - (n div 8 - Suc 0)" by simp
      from assms n n' True False show ?thesis
        by (auto simp: bit_block_of_bytes bit_shiftLeft_nth d m s)
    qed
  next
    case False
    with div_mod_pred_8(2) [of n]
    have d: "(n - Suc 0) div 8 = n div 8" and m: "(n - Suc 0) mod 8 = n mod 8 - Suc 0" and p: "0 < n"
      by simp_all
    from assms n n' False show ?thesis
      by (simp add: bit_block_of_bytes bit_shiftLeft_nth d m p)
  qed
  then show "bit (block_of_bytes (shiftLeft bs)) n \<longleftrightarrow> bit (push_bit 1 (block_of_bytes bs)) n"
    unfolding bit_push_bit_1_block .
qed

lemma rb_eq: "rb = [0,0,0,0,0,0,0,0,0,0,0,0,0,0,0,0x87]"
  unfolding rb_def alloc_def by code_simp

lemma block_of_bytes_rb: "block_of_bytes rb = 0x87"
  unfolding rb_eq block_of_bytes_def by simp

lemma block_of_bytes_xor:
  assumes "length a = 16" "length b = 16"
  shows "block_of_bytes (xor_buf a b) = block_of_bytes a XOR block_of_bytes b"
proof (rule bit_eqI)
  fix n
  assume "possible_bit TYPE(block) n"
  then have n: "n < 128" by (simp add: possible_bit_def)
  then have i: "15 - n div 8 < 16" by simp
  show "bit (block_of_bytes (xor_buf a b)) n \<longleftrightarrow> bit (block_of_bytes a XOR block_of_bytes b) n"
    using assms n i by (simp add: bit_block_of_bytes xor_buf_map2 bit_xor_iff)
qed

lemma top_bit_set_block:
  "length l = 16 \<Longrightarrow> top_bit_set l \<longleftrightarrow> bit (block_of_bytes l) 127"
  by (auto simp: top_bit_set_iff bit_block_of_bytes)

lemma aes_encrypt_one_block:
  "length key = 16 \<Longrightarrow> length blk = 16 \<Longrightarrow>
   aes_128_ecb_encrypt c key blk = Inr (Encrypt c key blk)"
  by (simp add: aes_128_ecb_encrypt_def createCipheriv_def update_final_block Encrypt_def)

lemma length_Encrypt [simp]: "length (Encrypt c key blk) = 16"
  by (simp add: Encrypt_def)

lemma const_Rb_eq_rb: "const_Rb = rb"
  unfolding rb_eq const_Rb_def by code_simp

lemma length_rb [simp]: "length rb = 16"
  by (simp add: rb_def)

lemma length_const_Rb [simp]: "length const_Rb = 16"
  by (simp add: const_Rb_def)

lemma length_xor_block [simp]: "length (xor_block a b) = min (length a) (length b)"
  by (simp add: xor_block_def)

lemma xor_buf_block: "length a = length b \<Longrightarrow> xor_buf a b = xor_block a b"
  by (simp add: xor_buf_map2 xor_block_def)

lemma top_bit_set_hd: "l \<noteq> [] \<Longrightarrow> top_bit_set l \<longleftrightarrow> bit (hd l) 7"
  by (simp add: top_bit_set_iff hd_conv_nth)

lemma subkey_round:
  assumes "length v = 16"
  shows "(if top_bit_set v then xor_buf (shiftLeft v) rb else shiftLeft v) = next_subkey v"
proof -
  from assms have "v \<noteq> []" by auto
  then show ?thesis
    using assms by (simp add: next_subkey_def top_bit_set_hd const_Rb_eq_rb [symmetric] xor_buf_block)
qed

lemma length_next_subkey [simp]: "length v = 16 \<Longrightarrow> length (next_subkey v) = 16"
  by (simp add: next_subkey_def)

lemma length_spec_K1 [simp]: "length (spec_K1 c key) = 16"
  by (simp add: spec_K1_def)

lemma length_spec_K2 [simp]: "length (spec_K2 c key) = 16"
  by (simp add: spec_K2_def)

lemma generateSubkeys_eq:
  assumes "length key = 16"
  shows "generateSubkeys c key = Inr \<lparr>k1 = spec_K1 c key, k2 = spec_K2 c key\<rparr>"
proof -
  let ?L = "Encrypt c key (replicate 16 0)"
  have enc: "aes_128_ecb_encrypt c key (alloc 16) = Inr ?L"
    using assms aes_encrypt_one_block [of key "alloc 16" c] by (simp add: alloc_def)
  have r1: "(if top_bit_set ?L then xor_buf (shiftLeft ?L) rb else shiftLeft ?L) = spec_K1 c key"
    unfolding spec_K1_def by (rule subkey_round) simp
  have r2: "(if top_bit_set (spec_K1 c key) then xor_buf (shiftLeft (spec_K1 c key)) rb
             else shiftLeft (spec_K1 c key)) = spec_K2 c key"
    unfolding spec_K2_def by (rule subkey_round) simp
  show ?thesis
    unfolding generateSubkeys_def enc by (simp only: sum.case Let_def r1 r2)
qed

lemma generateSubkeys_invalid_key:
  "length key \<noteq> 16 \<Longrightarrow> generateSubkeys c key = Inl ERR_CRYPTO_INVALID_KEYLEN"
  by (simp add: generateSubkeys_def aes_128_ecb_encrypt_def createCipheriv_def)

lemma block_of_next_subkey:
  assumes "length v = 16"
  shows "block_of_bytes (next_subkey v) = dbl (block_of_bytes v)"
proof -
  from assms have ne: "v \<noteq> []" by auto
  have top: "bit (hd v) 7 \<longleftrightarrow> bit (block_of_bytes v) 127"
    using top_bit_set_block [OF assms] top_bit_set_hd [OF ne] by simp
  have x: "block_of_bytes (xor_block (shiftLeft v) const_Rb) = push_bit 1 (block_of_bytes v) XOR 0x87"
    using assms block_of_bytes_xor [of "shiftLeft v" rb]
    by (simp add: xor_buf_block [symmetric] const_Rb_eq_rb block_of_bytes_rb
        block_of_bytes_shiftLeft del: push_bit_of_Suc_0)
  show ?thesis
    unfolding next_subkey_def dbl_def top
    using assms x by (simp add: block_of_bytes_shiftLeft del: push_bit_of_Suc_0)
qed

lemma Encrypt_block:
  "block_of_bytes (Encrypt c key blk) = encrypt_block c (block_of_bytes key) (block_of_bytes blk)"
  by (simp add: Encrypt_def)

lemma block_of_zero: "block_of_bytes (replicate 16 0) = 0"
  using block_of_bytes_alloc by (simp add: alloc_def)

lemma spec_K1_block:
  "block_of_bytes (spec_K1 c key) = dbl (encrypt_block c (block_of_bytes key) 0)"
  by (simp add: spec_K1_def block_of_next_subkey Encrypt_block block_of_zero)

lemma spec_K2_block:
  "block_of_bytes (spec_K2 c key) = dbl (dbl (encrypt_block c (block_of_bytes key) 0))"
  by (simp add: spec_K2_def block_of_next_subkey spec_K1_block)

text \<open>
  Claim C4. For every 16-byte key, \<open>generateSubkeys\<close> returns the pair (K1, K2) where,
  with L the encryption of the all-zero block under the key, K1 is \<open>shiftLeft\<close> of L,
  XORed with the constant \<open>0x00...0087\<close> exactly when the top bit of L is set, and K2
  is obtained from K1 in the same way; both have 16 bytes. Read as 128-bit numbers, K1
  and K2 are the doubling of L and of K1 with the polynomial \<open>0x87\<close>. The model is a
  function of the cipher and the key alone (every call creates its cipher anew), so the
  same key gives the same pair.
\<close>

theorem generateSubkeys_spec:
  assumes "length key = 16"
  shows "generateSubkeys c key = Inr \<lparr>k1 = spec_K1 c key, k2 = spec_K2 c key\<rparr>
         \<and> length (spec_K1 c key) = 16 \<and> length (spec_K2 c key) = 16
         \<and> block_of_bytes (spec_K1 c key) = dbl (encrypt_block c (block_of_bytes key) 0)
         \<and> block_of_bytes (spec_K2 c key) = dbl (dbl (encrypt_block c (block_of_bytes key) 0))"
  using assms by (simp add: generateSubkeys_eq spec_K1_block spec_K2_block)

text \<open>
  An instance of C4 in which the top bit of L is set and the top bit of K1 is not.
\<close>

theorem generateSubkeys_spec_witness:
  "length key80 = 16
   \<and> generateSubkeys sample_cipher key80 =
       Inr \<lparr>k1 = [0, 0, 0, 0, 0, 0, 0, 0, 0, 0, 0, 0, 0, 0, 0, 0x87],
            k2 = [0, 0, 0, 0, 0, 0, 0, 0, 0, 0, 0, 0, 0, 0, 0x01, 0x0E]\<rparr>"
proof -
  have len: "length key80 = 16" by (simp add: key80_def)
  have a: "spec_K1 sample_cipher key80 = [0, 0, 0, 0, 0, 0, 0, 0, 0, 0, 0, 0, 0, 0, 0, 0x87]"
    by code_simp
  have b: "spec_K2 sample_cipher key80 = [0, 0, 0, 0, 0, 0, 0, 0, 0, 0, 0, 0, 0, 0, 0x01, 0x0E]"
    by code_simp
  show ?thesis
    using generateSubkeys_spec [OF len, of sample_cipher] len by (simp add: a b)
qed

lemma fold_cond_update_upt:
  "n \<le> length r \<Longrightarrow>
   fold (\<lambda>i r. case g i of None \<Rightarrow> r | Some b \<Rightarrow> r[i := b]) [0..<n] r =
     map (\<lambda>i. case g i of None \<Rightarrow> r ! i | Some b \<Rightarrow> b) [0..<n] @ drop n r"
proof (induction n)
  case 0
  then show ?case by simp
next
  case (Suc n)
  let ?h = "\<lambda>i. case g i of None \<Rightarrow> r ! i | Some b \<Rightarrow> b"
  from Suc.prems have n: "n < length r" by simp
  have "fold (\<lambda>i r. case g i of None \<Rightarrow> r | Some b \<Rightarrow> r[i := b]) [0..<Suc n] r =
        (case g n of None \<Rightarrow> map ?h [0..<n] @ drop n r
                   | Some b \<Rightarrow> (map ?h [0..<n] @ drop n r)[n := b])"
    using Suc by (simp split: option.split)
  also have "\<dots> = map ?h [0..<n] @ (?h n # drop (Suc n) r)"
    using n by (cases "g n") (simp_all add: list_update_append Cons_nth_drop_Suc [symmetric])
  finally show ?case by simp
qed

lemma truncateCmac_map:
  "truncateCmac cmac = map (\<lambda>i. or_zero (byte_at cmac (i * 2 + 1))) [0..<8]"
proof -
  have "truncateCmac cmac =
        map (\<lambda>i. case byte_at cmac (i * 2 + 1) of None \<Rightarrow> alloc 8 ! i | Some b \<Rightarrow> b) [0..<8]"
    unfolding truncateCmac_def by (subst fold_cond_update_upt) simp_all
  also have "\<dots> = map (\<lambda>i. or_zero (byte_at cmac (i * 2 + 1))) [0..<8]"
    by (rule map_cong) (auto simp: or_zero_def alloc_def split: option.split)
  finally show ?thesis .
qed

lemma length_truncateCmac [simp]: "length (truncateCmac cmac) = 8"
  by (simp add: truncateCmac_map)

text \<open>
  Claim C3. For every 16-byte \<open>cmac\<close>, \<open>truncateCmac\<close> returns 8 bytes, byte \<open>i\<close> of
  the result being byte \<open>2 * i + 1\<close> of the input; on the bytes
  \<open>1234567890ABCDEF1234567890ABCDEF\<close> the result is \<open>3478ABEF3478ABEF\<close>, which is not
  the first 8 bytes.
\<close>

theorem truncateCmac_spec:
  "(length cmac = 16 \<longrightarrow>
      length (truncateCmac cmac) = 8 \<and> (\<forall>i<8. truncateCmac cmac ! i = cmac ! (2 * i + 1)))
   \<and> truncateCmac cmac_example = [0x34, 0x78, 0xAB, 0xEF, 0x34, 0x78, 0xAB, 0xEF]
   \<and> truncateCmac cmac_example \<noteq> take 8 cmac_example"
proof -
  have ex: "truncateCmac cmac_example = [0x34, 0x78, 0xAB, 0xEF, 0x34, 0x78, 0xAB, 0xEF]"
    by code_simp
  have ne: "truncateCmac cmac_example \<noteq> take 8 cmac_example"
    unfolding ex by (simp add: cmac_example_def)
  have "truncateCmac cmac ! i = cmac ! (2 * i + 1)" if "length cmac = 16" "i < 8" for i
    using that by (simp add: truncateCmac_map byte_at_def or_zero_def mult.commute)
  with ex ne show ?thesis by simp
qed

theorem truncateCmac_spec_witness:
  "length cmac_example = 16
   \<and> length (truncateCmac cmac_example) = 8
   \<and> truncateCmac cmac_example ! 0 = cmac_example ! 1
   \<and> truncateCmac cmac_example ! 3 = cmac_example ! 7
   \<and> truncateCmac cmac_example ! 7 = cmac_example ! 15
   \<and> truncateCmac cmac_example = [0x34, 0x78, 0xAB, 0xEF, 0x34, 0x78, 0xAB, 0xEF]"
proof -
  have len: "length cmac_example = 16" by (simp add: cmac_example_def)
  note t = truncateCmac_spec [of cmac_example]
  from t len have all: "\<forall>i<8. truncateCmac cmac_example ! i = cmac_example ! (2 * i + 1)"
    by blast
  from t len have l8: "length (truncateCmac cmac_example) = 8"
    by blast
  from t have ex: "truncateCmac cmac_example = [0x34, 0x78, 0xAB, 0xEF, 0x34, 0x78, 0xAB, 0xEF]"
    by blast
  from all have "truncateCmac cmac_example ! 0 = cmac_example ! (2 * 0 + 1)"
    "truncateCmac cmac_example ! 3 = cmac_example ! (2 * 3 + 1)"
    "truncateCmac cmac_example ! 7 = cmac_example ! (2 * 7 + 1)"
    by simp_all
  with len l8 ex show ?thesis by simp
qed

lemma div16_plus15:
  fixes m :: nat
  shows "(m + 15) div 16 = m div 16 + (if m mod 16 = 0 then 0 else 1)"
proof -
  define q r where "q = m div 16" and "r = m mod 16"
  have m: "m = r + q * 16" and r: "r < 16" by (simp_all add: q_def r_def)
  have "(m + 15) div 16 = q + (r + 15) div 16"
    unfolding m by simp
  moreover have "(r + 15) div 16 = (if r = 0 then 0 else 1)"
    using r by (cases "r = 0") (simp_all add: div_eq_dividend_iff Suc_le_eq  div_nat_eqI)
  ultimately show ?thesis by (simp add: q_def r_def)
qed

lemma ceiling_div16: "nat \<lceil>real m / real 16\<rceil> = (m + 15) div 16"
proof -
  have "\<lceil>real m / real 16\<rceil> = - (- int m div 16)"
    using ceiling_divide_eq_div [of "int m" 16, where ?'a = real] by simp
  also have "\<dots> = int ((m + 15) div 16)"
  proof -
    have "- int m = - int ((m + 15) div 16) * 16 + int (16 * ((m + 15) div 16) - m)"
      "int (16 * ((m + 15) div 16) - m) < 16" "0 \<le> int (16 * ((m + 15) div 16) - m)"
      unfolding div16_plus15 by (simp_all split: if_splits) (use mod_less_divisor [of 16 m] mult_div_mod_eq [of 16 m] in linarith)+
    then show ?thesis
      by (metis add.commute div_pos_pos_trivial div_mult_self1 add.right_neutral minus_minus minus_mult_left
          zero_neq_numeral)
  qed
  finally show ?thesis by simp
qed

lemma cmac_loop_foldl:
  assumes "length key = 16" and "fullBlocks * 16 \<le> length data"
  shows "length x = 16 \<Longrightarrow> i \<le> fullBlocks \<Longrightarrow>
         cmac_loop c key data fullBlocks i x =
           Inr (foldl (chain_step c key) x (map (\<lambda>i. take 16 (drop (16 * i) data)) [i..<fullBlocks]))"
proof (induction "fullBlocks - i" arbitrary: i x)
  case 0
  then show ?case by simp
next
  case (Suc d)
  then have i: "i < fullBlocks" by simp
  let ?blk = "take 16 (drop (16 * i) data)"
  have "(i + 1) * 16 \<le> fullBlocks * 16"
    using i by simp
  then have "(i + 1) * 16 \<le> length data"
    using assms(2) by (rule le_trans)
  then have len: "length ?blk = 16" by simp
  have sl: "slice_buf data (i * 16) ((i + 1) * 16) = ?blk"
    by (simp add: slice_buf_def mult.commute)
  have enc: "aes_128_ecb_encrypt c key (xor_buf x ?blk) = Inr (chain_step c key x ?blk)"
    using Suc.prems(1) len assms(1)
    by (simp add: xor_buf_block aes_encrypt_one_block)
  have IH: "cmac_loop c key data fullBlocks (Suc i) (chain_step c key x ?blk) =
        Inr (foldl (chain_step c key) (chain_step c key x ?blk)
               (map (\<lambda>i. take 16 (drop (16 * i) data)) [Suc i..<fullBlocks]))"
    using Suc.hyps(2) i by (intro Suc.hyps(1)) simp_all
  have "cmac_loop c key data fullBlocks i x =
        cmac_loop c key data fullBlocks (i + 1) (chain_step c key x ?blk)"
    using i by (subst cmac_loop.simps) (simp only: if_True Let_def sl enc sum.case)
  also have "\<dots> = Inr (foldl (chain_step c key) (chain_step c key x ?blk)
               (map (\<lambda>i. take 16 (drop (16 * i) data)) [Suc i..<fullBlocks]))"
    using IH by simp
  finally show ?case
    using i by (simp add: upt_conv_Cons del: cmac_loop.simps)
qed

lemma length_foldl_chain:
  "length x = 16 \<Longrightarrow> length (foldl (chain_step c key) x blks) = 16"
  by (induction blks arbitrary: x) simp_all

lemma length_spec_chain [simp]: "length (spec_chain c key data) = 16"
  by (simp add: spec_chain_def length_foldl_chain)

lemma replicate_update_0: "0 < k \<Longrightarrow> (replicate k z)[0 := v] = v # replicate (k - 1) z"
  by (cases k) simp_all

lemma copy_complete:
  assumes "16 \<le> length data"
  shows "copy_buf data (alloc 16) 0 (length data - 16) (length data - 16 + 16) =
           Inr (drop (length data - 16) data)"
proof -
  from assms have "\<not> length data \<le> length data - 16" "length data - (length data - 16) = 16"
    by arith+
  then show ?thesis
    by (simp add: copy_buf_def Let_def)
qed

lemma copy_partial:
  assumes "start < length data" and "length data - start < 16"
  shows "copy_buf data (alloc 16) 0 start (start + (length data - start)) =
           Inr (drop start data @ replicate (16 - (length data - start)) 0)"
  using assms by (simp add: copy_buf_def Let_def alloc_def min_def)

lemma createCipheriv_ok: "length key = 16 \<Longrightarrow> createCipheriv key = Inr (block_of_bytes key)"
  by (simp add: createCipheriv_def)

lemma calculateCmac_empty:
  assumes "length key = 16"
  shows "calculateCmac c key [] = Inr (spec_cmac c key [])"
proof -
  have pad: "(alloc 16)[0 := 0x80] = [0x80] @ replicate (15 - 0) 0"
    by (simp add: alloc_def replicate_update_0)
  show ?thesis
    using assms
    apply (simp add: calculateCmac_def generateSubkeys_eq createCipheriv_ok Let_def pad
        xor_buf_block aes_encrypt_one_block
        spec_cmac_def spec_chain_def spec_last_block_def spec_n_def block_complete_def
        del: cmac_loop.simps)
    apply (subst cmac_loop.simps)
    apply (simp add: xor_buf_block aes_encrypt_one_block alloc_def replicate_update_0
        del: cmac_loop.simps)
    done
qed

lemma calculateCmac_last_block:
  "calculateCmac c key data =
     (case generateSubkeys c key of
        Inl e \<Rightarrow> Inl e
      | Inr sk \<Rightarrow>
     (case createCipheriv key of
        Inl e \<Rightarrow> Inl e
      | Inr _ \<Rightarrow>
     (case code_last_block data of
        Inl e \<Rightarrow> Inl e
      | Inr lastBlock \<Rightarrow>
     (case cmac_loop c key data
             ((if length data = 0 then 1 else nat \<lceil>real (length data) / real 16\<rceil>) - 1)
             0 (alloc 16) of
        Inl e \<Rightarrow> Inl e
      | Inr x \<Rightarrow>
          aes_128_ecb_encrypt c key
            (xor_buf x (xor_buf lastBlock
               (if length data \<noteq> 0 \<and> length data mod 16 = 0 then k1 sk else k2 sk)))))))"
  unfolding calculateCmac_def code_last_block_def Let_def ..

lemma spec_n_bounds:
  assumes "data \<noteq> []"
  shows "16 * (spec_n data - 1) < length data" and "length data \<le> 16 * spec_n data"
    and "16 dvd length data \<Longrightarrow> 16 * (spec_n data - 1) = length data - 16"
    and "16 \<le> length data \<or> \<not> 16 dvd length data"
proof -
  define q r where "q = length data div 16" and "r = length data mod 16"
  have m: "length data = r + q * 16" and r: "r < 16" by (simp_all add: q_def r_def)
  have n: "spec_n data = q + (if r = 0 then 0 else 1)"
    using assms by (simp add: spec_n_def div16_plus15 q_def r_def)
  have pos: "0 < length data" using assms by simp
  have d: "16 dvd length data \<longleftrightarrow> r = 0" by (simp add: r_def dvd_eq_mod_eq_0)
  show "16 * (spec_n data - 1) < length data"
    using pos r unfolding n m by (cases "r = 0") auto
  show "length data \<le> 16 * spec_n data"
    using r unfolding n m by (cases "r = 0") auto
  show "16 * (spec_n data - 1) = length data - 16" if "16 dvd length data"
  proof -
    from that d have r0: "r = 0" by simp
    show ?thesis unfolding n m r0 by simp
  qed
  show "16 \<le> length data \<or> \<not> 16 dvd length data"
    using pos unfolding d m by (cases q) auto
qed

lemma code_last_block_eq: "code_last_block data = Inr (spec_last_plain data)"
proof (cases "data = []")
  case True
  then show ?thesis
    by (simp add: code_last_block_def spec_last_plain_def block_complete_def spec_n_def
        alloc_def replicate_update_0)
next
  case False
  define n where "n = spec_n data"
  have ceil: "nat \<lceil>real (length data) / real 16\<rceil> = n"
    using False by (simp only: ceiling_div16 n_def spec_n_def if_False)
  have len0: "(length data = 0) = False" using False by simp
  note b = spec_n_bounds [OF False, folded n_def]
  show ?thesis
  proof (cases "16 dvd length data")
    case True
    then have c: "(length data mod 16 = 0) = True" by (simp add: dvd_eq_mod_eq_0)
    have s: "(n - 1) * 16 = length data - 16" using b(3) [OF True] by (simp add: mult.commute)
    have ge: "16 \<le> length data" using b(4) True by simp
    have "code_last_block data = copy_buf data (alloc 16) 0 (length data - 16) (length data - 16 + 16)"
      unfolding code_last_block_def Let_def ceil len0 c if_True if_False simp_thms s ..
    also have "\<dots> = Inr (drop (length data - 16) data)"
      by (rule copy_complete [OF ge])
    finally show ?thesis
      using True False by (simp add: spec_last_plain_def block_complete_def)
  next
    case nd: False
    then have c: "(length data mod 16 = 0) = False" by (simp add: dvd_eq_mod_eq_0)
    define start where "start = (n - 1) * 16"
    define rem where "rem = length data - start"
    have st: "start < length data" using b(1) by (simp add: start_def mult.commute)
    have "rem \<noteq> 16"
    proof
      assume "rem = 16"
      then have "length data = n * 16"
        using st b(1) b(2) unfolding rem_def start_def
        by (cases n) (auto simp: mult.commute)
      with nd show False by simp
    qed
    moreover have "rem \<le> 16" using b(2) unfolding rem_def start_def
      by (cases n) (auto simp: mult.commute)
    ultimately have rem: "0 < rem" "rem < 16" using st by (simp_all add: rem_def)
    have "code_last_block data =
          (case copy_buf data (alloc 16) 0 start (start + rem) of
             Inl e \<Rightarrow> Inl e | Inr lastBlock \<Rightarrow> Inr (lastBlock[rem := 0x80]))"
      unfolding code_last_block_def Let_def ceil len0 c if_True if_False simp_thms
        start_def [symmetric] rem_def [symmetric]
      using rem by (simp only: if_True)
    also have "copy_buf data (alloc 16) 0 start (start + rem) =
               Inr (drop start data @ replicate (16 - rem) 0)"
      unfolding rem_def by (rule copy_partial) (use st rem in \<open>simp_all add: rem_def\<close>)
    also have "(case Inr (drop start data @ replicate (16 - rem) 0) :: js_error + buffer of
                  Inl e \<Rightarrow> Inl e | Inr lastBlock \<Rightarrow> Inr (lastBlock[rem := 0x80])) =
               Inr (drop start data @ [0x80] @ replicate (15 - rem) 0)"
      using rem st by (simp add: list_update_append rem_def replicate_update_0)
    finally show ?thesis
      using nd False st
      by (simp add: spec_last_plain_def block_complete_def n_def [symmetric] start_def rem_def
          mult.commute)
  qed
qed

lemma length_copy_buf:
  "copy_buf source target targetStart sourceStart sourceEnd = Inr r \<Longrightarrow> length r = length target"
  by (auto simp: copy_buf_def Let_def min_def split: if_splits)

lemma length_code_last_block:
  "code_last_block data = Inr lb \<Longrightarrow> length lb = 16"
  unfolding code_last_block_def Let_def
  by (auto split: if_splits sum.splits dest!: length_copy_buf)

lemma length_spec_last_plain [simp]: "length (spec_last_plain data) = 16"
  using length_code_last_block [OF code_last_block_eq] .

lemma spec_last_block_plain:
  "spec_last_block c key data =
     xor_block (spec_last_plain data) (if block_complete data then spec_K1 c key else spec_K2 c key)"
  by (simp add: spec_last_block_def spec_last_plain_def Let_def)

lemma length_spec_last_block [simp]: "length (spec_last_block c key data) = 16"
  by (simp add: spec_last_block_plain)

lemma code_n_eq:
  "(if length data = 0 then 1 else nat \<lceil>real (length data) / real 16\<rceil>) = spec_n data"
  by (simp only: ceiling_div16 spec_n_def length_0_conv)

lemma code_complete_eq:
  "(length data \<noteq> 0 \<and> length data mod 16 = 0) = block_complete data"
  by (simp add: block_complete_def dvd_eq_mod_eq_0)

lemma cmac_loop_spec_chain:
  assumes "length key = 16"
  shows "cmac_loop c key data (spec_n data - 1) 0 (alloc 16) = Inr (spec_chain c key data)"
proof -
  have "(spec_n data - 1) * 16 \<le> length data"
  proof (cases "data = []")
    case True
    then show ?thesis by (simp add: spec_n_def)
  next
    case False
    from spec_n_bounds(1) [OF False] show ?thesis by (simp add: mult.commute)
  qed
  from cmac_loop_foldl [OF assms this, of "alloc 16" 0 c]
  show ?thesis by (simp add: spec_chain_def alloc_def)
qed

lemma length_spec_cmac [simp]: "length (spec_cmac c key data) = 16"
  by (simp add: spec_cmac_def)

lemma calculateCmac_eq:
  assumes "length key = 16"
  shows "calculateCmac c key data = Inr (spec_cmac c key data)"
proof -
  have "calculateCmac c key data =
        aes_128_ecb_encrypt c key
          (xor_buf (spec_chain c key data)
             (xor_buf (spec_last_plain data)
                (if block_complete data then spec_K1 c key else spec_K2 c key)))"
    unfolding calculateCmac_last_block code_n_eq code_complete_eq
    by (simp add: generateSubkeys_eq [OF assms] createCipheriv_ok [OF assms] code_last_block_eq
        cmac_loop_spec_chain [OF assms, unfolded One_nat_def] del: cmac_loop.simps)
  also have "\<dots> = Inr (spec_cmac c key data)"
    using assms
    by (simp add: xor_buf_block aes_encrypt_one_block spec_cmac_def spec_last_block_plain)
  finally show ?thesis .
qed

lemma calculateCmac_invalid_key:
  "length key \<noteq> 16 \<Longrightarrow> calculateCmac c key data = Inl ERR_CRYPTO_INVALID_KEYLEN"
  by (simp add: calculateCmac_def generateSubkeys_invalid_key)

text \<open>
  Claim C1. For every 16-byte key and every byte sequence, \<open>calculateCmac\<close> returns
  16 bytes, and they are the ones the specification describes: with \<open>n\<close> blocks
  (1 for empty data, else the length divided by 16 and rounded up), the last block is
  the final 16 bytes XORed with K1 when the data is not empty and a multiple of 16 long,
  and otherwise the final partial block, one byte \<open>0x80\<close> and zeros up to 16 bytes,
  XORed with K2; the result is the encryption of the last block XORed with the
  accumulator that the chain over the \<open>n - 1\<close> blocks before it gives from zero.
\<close>

theorem calculateCmac_spec:
  assumes "length key = 16"
  shows "calculateCmac c key data = Inr (spec_cmac c key data)
         \<and> length (spec_cmac c key data) = 16
         \<and> spec_n data = (if data = [] then 1 else nat \<lceil>real (length data) / 16\<rceil>)"
  using calculateCmac_eq [OF assms, of c data] ceiling_div16 [of "length data"]
  by (simp add: spec_n_def)

text \<open>
  An instance of C1 with two blocks, the second with one byte of data and the padding.
\<close>

theorem calculateCmac_spec_witness:
  "length key80 = 16
   \<and> calculateCmac sample_cipher key80 data17 =
       Inr [16, 130, 3, 4, 5, 6, 7, 8, 9, 10, 11, 12, 13, 14, 14, 30]"
proof -
  have len: "length key80 = 16" by (simp add: key80_def)
  have v: "spec_cmac sample_cipher key80 data17 =
           [16, 130, 3, 4, 5, 6, 7, 8, 9, 10, 11, 12, 13, 14, 14, 30]"
    by code_simp
  show ?thesis
    using calculateCmac_spec [OF len, of sample_cipher data17] len by (simp add: v)
qed

lemma upper_hex_digit_table:
  "list_all (\<lambda>d. toUpperCase_char (hex_digit d) = upper_hex_digits ! d) [0..<16]"
  by code_simp

lemma toUpperCase_hex_digit:
  "d < 16 \<Longrightarrow> toUpperCase_char (hex_digit d) = upper_hex_digits ! d"
  using upper_hex_digit_table by (simp add: list_all_iff)

lemma toUpperCase_toString_hex: "toUpperCase (toString_hex buf) = upper_hex buf"
proof -
  have "unat b div 16 < 16" "unat b mod 16 < 16" for b :: byte
    using unsigned_less [of b, where ?'a = nat] by simp_all
  then show ?thesis
    by (induction buf) (simp_all add: toUpperCase_def toString_hex_def upper_hex_def toUpperCase_hex_digit)
qed

lemma length_upper_hex [simp]: "length (upper_hex buf) = 2 * length buf"
  by (induction buf) (simp_all add: upper_hex_def)

lemma set_upper_hex: "set (upper_hex buf) \<subseteq> set upper_hex_digits"
proof -
  have "upper_hex_digits ! d \<in> set upper_hex_digits" if "d < 16" for d
    using that by (intro nth_mem) (simp add: upper_hex_digits_def)
  moreover have "unat b div 16 < 16" "unat b mod 16 < 16" for b :: byte
    using unsigned_less [of b, where ?'a = nat] by simp_all
  ultimately show ?thesis
    by (auto simp: upper_hex_def)
qed

lemma take3_drop:
  assumes "k + 3 \<le> length d"
  shows "take 3 (drop k d) = [d ! k, d ! (k + 1), d ! (k + 2)]"
proof -
  from assms have "k < length d" "Suc k < length d" "Suc (Suc k) < length d" by simp_all
  then have "drop k d = d ! k # d ! Suc k # d ! Suc (Suc k) # drop (Suc (Suc (Suc k))) d"
    by (simp add: Cons_nth_drop_Suc)
  then show ?thesis by simp
qed

lemma readUIntLE_3:
  "readUIntLE [a, b, c] 0 3 = Inr (unat a + 2 ^ 8 * unat b + 2 ^ 16 * unat c)"
  by (simp add: readUIntLE_def)

lemma extract_tagged:
  assumes "11 \<le> length decrypted"
  shows "extractUidAndCounter decrypted =
     Inr (Some \<lparr>uid = take 7 (drop 1 decrypted), counter = take 3 (drop 8 decrypted),
                uidHex = upper_hex (take 7 (drop 1 decrypted)),
                counterInt = unat (decrypted ! 8) + 2 ^ 8 * unat (decrypted ! 9)
                             + 2 ^ 16 * unat (decrypted ! 10)\<rparr>)"
proof -
  have t: "take 3 (drop 8 decrypted) = [decrypted ! 8, decrypted ! 9, decrypted ! 10]"
    using take3_drop [of 8 decrypted] assms by simp
  have r: "readUIntLE (take 3 (drop 8 decrypted)) 0 3 =
           Inr (unat (decrypted ! 8) + 2 ^ 8 * unat (decrypted ! 9) + 2 ^ 16 * unat (decrypted ! 10))"
    unfolding t by (rule readUIntLE_3)
  from assms have "\<not> length decrypted < 10" by simp
  then show ?thesis
    using assms
    by (simp add: extractUidAndCounter_def slice_buf_def Let_def toUpperCase_toString_hex r)
qed

lemma extract_untagged:
  assumes "length decrypted = 10"
  shows "extractUidAndCounter decrypted =
     Inr (Some \<lparr>uid = take 7 decrypted, counter = take 3 (drop 7 decrypted),
                uidHex = upper_hex (take 7 decrypted),
                counterInt = unat (decrypted ! 7) + 2 ^ 8 * unat (decrypted ! 8)
                             + 2 ^ 16 * unat (decrypted ! 9)\<rparr>)"
proof -
  have t: "take 3 (drop 7 decrypted) = [decrypted ! 7, decrypted ! 8, decrypted ! 9]"
    using take3_drop [of 7 decrypted] assms by simp
  have r: "readUIntLE (take 3 (drop 7 decrypted)) 0 3 =
           Inr (unat (decrypted ! 7) + 2 ^ 8 * unat (decrypted ! 8) + 2 ^ 16 * unat (decrypted ! 9))"
    unfolding t by (rule readUIntLE_3)
  have t': "drop 7 decrypted = [decrypted ! 7, decrypted ! 8, decrypted ! 9]"
    using t assms by simp
  show ?thesis
    using assms r
    by (simp add: extractUidAndCounter_def slice_buf_def Let_def toUpperCase_toString_hex t')
qed

lemma extract_short:
  "length decrypted < 10 \<Longrightarrow> extractUidAndCounter decrypted = Inr None"
  by (simp add: extractUidAndCounter_def)

lemma picc_example_12: "from_hex ''041234567890ABCDEF123456'' =
    [0x04, 0x12, 0x34, 0x56, 0x78, 0x90, 0xAB, 0xCD, 0xEF, 0x12, 0x34, 0x56]"
  by code_simp

lemma picc_example_11: "from_hex ''1234567890ABCDEF123456'' =
    [0x12, 0x34, 0x56, 0x78, 0x90, 0xAB, 0xCD, 0xEF, 0x12, 0x34, 0x56]"
  by code_simp

lemma upper_hex_example_1: "upper_hex [0x12, 0x34, 0x56, 0x78, 0x90, 0xAB, 0xCD] = ''1234567890ABCD''"
  by code_simp

lemma upper_hex_example_2: "upper_hex [0x34, 0x56, 0x78, 0x90, 0xAB, 0xCD, 0xEF] = ''34567890ABCDEF''"
  by code_simp

text \<open>
  Claim C5. \<open>extractUidAndCounter\<close> returns absent for fewer than 10 bytes; for at
  least 11 bytes the UID is bytes 1 to 7 and the counter bytes 8 to 10 (byte 0 is
  skipped); for exactly 10 bytes the UID is bytes 0 to 6 and the counter bytes 7 to 9.
  The counter value is the three counter bytes read little-endian, the UID text is
  upper-case hexadecimal, and the two inputs of the repository's tests give the UIDs and
  counters the specification states. It never raises.
\<close>

theorem extractUidAndCounter_spec:
  "(length decrypted < 10 \<longrightarrow> extractUidAndCounter decrypted = Inr None)
   \<and> (11 \<le> length decrypted \<longrightarrow>
        extractUidAndCounter decrypted =
          Inr (Some \<lparr>uid = take 7 (drop 1 decrypted), counter = take 3 (drop 8 decrypted),
                     uidHex = upper_hex (take 7 (drop 1 decrypted)),
                     counterInt = unat (decrypted ! 8) + 2 ^ 8 * unat (decrypted ! 9)
                                  + 2 ^ 16 * unat (decrypted ! 10)\<rparr>))
   \<and> (length decrypted = 10 \<longrightarrow>
        extractUidAndCounter decrypted =
          Inr (Some \<lparr>uid = take 7 decrypted, counter = take 3 (drop 7 decrypted),
                     uidHex = upper_hex (take 7 decrypted),
                     counterInt = unat (decrypted ! 7) + 2 ^ 8 * unat (decrypted ! 8)
                                  + 2 ^ 16 * unat (decrypted ! 9)\<rparr>))
   \<and> set (upper_hex buf) \<subseteq> set ''0123456789ABCDEF''
   \<and> extractUidAndCounter (from_hex ''041234567890ABCDEF123456'') =
        Inr (Some \<lparr>uid = [0x12, 0x34, 0x56, 0x78, 0x90, 0xAB, 0xCD], counter = [0xEF, 0x12, 0x34],
                   uidHex = ''1234567890ABCD'', counterInt = 0x3412EF\<rparr>)
   \<and> extractUidAndCounter (from_hex ''1234567890ABCDEF123456'') =
        Inr (Some \<lparr>uid = [0x34, 0x56, 0x78, 0x90, 0xAB, 0xCD, 0xEF], counter = [0x12, 0x34, 0x56],
                   uidHex = ''34567890ABCDEF'', counterInt = 0x563412\<rparr>)"
proof -
  have e1: "extractUidAndCounter (from_hex ''041234567890ABCDEF123456'') =
        Inr (Some \<lparr>uid = [0x12, 0x34, 0x56, 0x78, 0x90, 0xAB, 0xCD], counter = [0xEF, 0x12, 0x34],
                   uidHex = ''1234567890ABCD'', counterInt = 0x3412EF\<rparr>)"
    unfolding picc_example_12 by (subst extract_tagged) (simp_all add: upper_hex_example_1)
  have e2: "extractUidAndCounter (from_hex ''1234567890ABCDEF123456'') =
        Inr (Some \<lparr>uid = [0x34, 0x56, 0x78, 0x90, 0xAB, 0xCD, 0xEF], counter = [0x12, 0x34, 0x56],
                   uidHex = ''34567890ABCDEF'', counterInt = 0x563412\<rparr>)"
    unfolding picc_example_11 by (subst extract_tagged) (simp_all add: upper_hex_example_2)
  have u: "set (upper_hex buf) \<subseteq> set ''0123456789ABCDEF''"
    using set_upper_hex [of buf] by (simp only: upper_hex_digits_def)
  show ?thesis
    using extract_short [of decrypted] extract_tagged [of decrypted] extract_untagged [of decrypted]
      e1 e2 u
    by blast
qed

text \<open>
  Instances of C5: ten bytes (the layout without a tag byte), twelve bytes and three
  bytes.
\<close>

theorem extractUidAndCounter_spec_witness:
  "length (from_hex ''1234567890ABCDEF1234'') = 10
   \<and> extractUidAndCounter (from_hex ''1234567890ABCDEF1234'') =
        Inr (Some \<lparr>uid = [0x12, 0x34, 0x56, 0x78, 0x90, 0xAB, 0xCD], counter = [0xEF, 0x12, 0x34],
                   uidHex = ''1234567890ABCD'', counterInt = 0x3412EF\<rparr>)
   \<and> 11 \<le> length (from_hex ''041234567890ABCDEF123456'')
   \<and> extractUidAndCounter (from_hex ''041234567890ABCDEF123456'') =
        Inr (Some \<lparr>uid = [0x12, 0x34, 0x56, 0x78, 0x90, 0xAB, 0xCD], counter = [0xEF, 0x12, 0x34],
                   uidHex = ''1234567890ABCD'', counterInt = 0x3412EF\<rparr>)
   \<and> length [1, 2, 3 :: byte] < 10
   \<and> extractUidAndCounter [1, 2, 3] = Inr None"
proof -
  have h: "from_hex ''1234567890ABCDEF1234'' =
           [0x12, 0x34, 0x56, 0x78, 0x90, 0xAB, 0xCD, 0xEF, 0x12, 0x34]"
    by code_simp
  have l10: "length (from_hex ''1234567890ABCDEF1234'') = 10" unfolding h by simp
  have l12: "11 \<le> length (from_hex ''041234567890ABCDEF123456'')" unfolding picc_example_12 by simp
  have l3: "length [1, 2, 3 :: byte] < 10" by simp
  from extractUidAndCounter_spec [of "from_hex ''1234567890ABCDEF1234''"] l10
  have a: "extractUidAndCounter (from_hex ''1234567890ABCDEF1234'') =
          Inr (Some \<lparr>uid = take 7 (from_hex ''1234567890ABCDEF1234''),
                     counter = take 3 (drop 7 (from_hex ''1234567890ABCDEF1234'')),
                     uidHex = upper_hex (take 7 (from_hex ''1234567890ABCDEF1234'')),
                     counterInt = unat (from_hex ''1234567890ABCDEF1234'' ! 7)
                       + 2 ^ 8 * unat (from_hex ''1234567890ABCDEF1234'' ! 8)
                       + 2 ^ 16 * unat (from_hex ''1234567890ABCDEF1234'' ! 9)\<rparr>)"
    by blast
  from extractUidAndCounter_spec [of "[1, 2, 3]"] l3
  have b: "extractUidAndCounter [1, 2, 3] = Inr None"
    by blast
  from extractUidAndCounter_spec [of "[]"]
  have c: "extractUidAndCounter (from_hex ''041234567890ABCDEF123456'') =
        Inr (Some \<lparr>uid = [0x12, 0x34, 0x56, 0x78, 0x90, 0xAB, 0xCD], counter = [0xEF, 0x12, 0x34],
                   uidHex = ''1234567890ABCD'', counterInt = 0x3412EF\<rparr>)"
    by blast
  have a': "extractUidAndCounter (from_hex ''1234567890ABCDEF1234'') =
        Inr (Some \<lparr>uid = [0x12, 0x34, 0x56, 0x78, 0x90, 0xAB, 0xCD], counter = [0xEF, 0x12, 0x34],
                   uidHex = ''1234567890ABCD'', counterInt = 0x3412EF\<rparr>)"
    using a unfolding h by (simp add: upper_hex_example_1)
  from l10 l12 l3 a' b c show ?thesis by simp
qed

lemma writeUIntBE3_nat:
  "m < 2 ^ 24 \<Longrightarrow> writeUIntBE3 (real m) = Inr (counter_BE m)"
  by (simp add: writeUIntBE3_def counter_BE_def)

lemma or_true_uidMirroring:
  "or_true (uidMirroring (case options of None \<Rightarrow> \<lparr>uidMirroring = Some True, readCounter = Some True\<rparr>
                                       | Some opts \<Rightarrow> opts)) = opt_uidMirroring options"
  by (cases options; cases "uidMirroring (the options)")
     (auto simp: or_true_def opt_uidMirroring_def split: option.splits)

lemma or_true_readCounter:
  "or_true (readCounter (case options of None \<Rightarrow> \<lparr>uidMirroring = Some True, readCounter = Some True\<rparr>
                                       | Some opts \<Rightarrow> opts)) = opt_readCounter options"
  by (cases options; cases "readCounter (the options)")
     (auto simp: or_true_def opt_readCounter_def split: option.splits)

lemma generateSdmSessionVector_eq:
  assumes "m < 2 ^ 24"
  shows "generateSdmSessionVector purpose u (real m) options = Inr (spec_vector purpose u m options)"
  unfolding generateSdmSessionVector_def Let_def or_true_uidMirroring or_true_readCounter
    writeUIntBE3_nat [OF assms]
  by (simp add: spec_vector_def counter_LE_def)

lemma unat_byte_of_nat: "unat (of_nat k :: byte) = k mod 256"
  by (simp add: unat_of_nat)

lemma counter_roundtrip:
  assumes "m < 2 ^ 24"
  shows "readUIntLE (counter_LE m) 0 3 = Inr m"
proof -
  have a: "m div 65536 mod 256 = m div 65536"
    using assms by (simp add: less_mult_imp_div_less)
  have e: "m div 65536 = m div 256 div 256"
    using div_mult2_eq [of m 256 256] by simp
  have b: "m div 256 mod 256 + 256 * (m div 65536) = m div 256"
    unfolding e by (rule mod_mult_div_eq)
  have c: "m mod 256 + 256 * (m div 256) = m"
    by simp
  have "m mod 256 + 256 * (m div 256 mod 256) + 65536 * (m div 65536 mod 256) = m"
    unfolding a using b c by linarith
  then show ?thesis
    by (simp add: counter_LE_def counter_BE_def readUIntLE_def unat_byte_of_nat a add.assoc)
qed

text \<open>
  Claim C6. For every purpose, UID, counter below \<open>2 ^ 24\<close> and options,
  \<open>generateSdmSessionVector\<close> returns the purpose, the constant
  \<open>{0x00, 0x01, 0x00, 0x80}\<close>, and then: the UID and the little-endian counter when the
  purpose is \<open>{0xC3, 0x3C}\<close>, whatever the options; the UID if \<open>uidMirroring\<close> and the
  counter if \<open>readCounter\<close> when the purpose is \<open>{0x3C, 0xC3}\<close>; nothing for any other
  purpose. The counter bytes are the big-endian three bytes reversed, and read
  little-endian they give the counter back.
\<close>

theorem generateSdmSessionVector_spec:
  assumes "m < 2 ^ 24"
  shows "generateSdmSessionVector purpose u (real m) options =
           Inr (purpose @ [0x00, 0x01, 0x00, 0x80] @
                (if purpose = [0xC3, 0x3C] then u @ counter_LE m
                 else if purpose = [0x3C, 0xC3] then
                   (if opt_uidMirroring options then u else []) @
                   (if opt_readCounter options then counter_LE m else [])
                 else []))
         \<and> counter_LE m = rev [of_nat (m div 2 ^ 16), of_nat (m div 2 ^ 8), of_nat m]
         \<and> readUIntLE (counter_LE m) 0 3 = Inr m"
  using generateSdmSessionVector_eq [OF assms, of purpose u options] counter_roundtrip [OF assms]
  by (simp add: spec_vector_def counter_LE_def counter_BE_def)

lemma counter_LE_example: "counter_LE 0x123456 = [0x56, 0x34, 0x12]"
  by (simp add: counter_LE_def counter_BE_def)

text \<open>
  An instance of C6: the MAC-key purpose with the default options, the UID and the
  counter \<open>0x123456\<close>.
\<close>

theorem generateSdmSessionVector_spec_witness:
  "(0x123456 :: nat) < 2 ^ 24
   \<and> generateSdmSessionVector [0x3C, 0xC3] uid_example 0x123456 None =
       Inr [0x3C, 0xC3, 0x00, 0x01, 0x00, 0x80,
            0x04, 0x12, 0x34, 0x56, 0x78, 0x90, 0xAB, 0x56, 0x34, 0x12]
   \<and> readUIntLE [0x56, 0x34, 0x12] 0 3 = Inr 0x123456"
proof -
  have m: "(0x123456 :: nat) < 2 ^ 24" by simp
  from generateSdmSessionVector_spec [OF m, of "[0x3C, 0xC3]" uid_example None] m
  show ?thesis
    by (simp add: counter_LE_example opt_uidMirroring_def opt_readCounter_def uid_example_def)
qed

lemma length_pad16: "length (pad16 v) = max 16 (length v)"
  by (simp add: pad16_def)

lemma generateSdmSessionKey_eq:
  assumes "m < 2 ^ 24"
  shows "generateSdmSessionKey c fileReadKey purpose u (real m) options =
           calculateCmac c fileReadKey (pad16 (spec_vector purpose u m options))"
  by (simp add: generateSdmSessionKey_def generateSdmSessionVector_eq [OF assms] pad16_def
      alloc_def Let_def)

text \<open>
  Claim C7. For every key, purpose, UID, counter below \<open>2 ^ 24\<close> and options,
  \<open>generateSdmSessionKey\<close> returns \<open>calculateCmac\<close> of the key and the session vector,
  padded on the right with zero bytes to exactly 16 bytes when it is shorter and left as
  it is otherwise; with a 16-byte key that is the 16-byte CMAC.
\<close>

theorem generateSdmSessionKey_spec:
  assumes "m < 2 ^ 24"
  shows "generateSdmSessionVector purpose u (real m) options = Inr (spec_vector purpose u m options)
         \<and> generateSdmSessionKey c fileReadKey purpose u (real m) options =
             calculateCmac c fileReadKey (pad16 (spec_vector purpose u m options))
         \<and> pad16 v = (if length v < 16 then v @ replicate (16 - length v) 0 else v)
         \<and> length (pad16 v) = max 16 (length v)
         \<and> (length fileReadKey = 16 \<longrightarrow>
              generateSdmSessionKey c fileReadKey purpose u (real m) options =
                Inr (spec_cmac c fileReadKey (pad16 (spec_vector purpose u m options)))
              \<and> length (spec_cmac c fileReadKey (pad16 (spec_vector purpose u m options))) = 16)"
  using generateSdmSessionVector_eq [OF assms, of purpose u options]
    generateSdmSessionKey_eq [OF assms, of c fileReadKey purpose u options]
    calculateCmac_eq [of fileReadKey c "pad16 (spec_vector purpose u m options)"]
  by (simp add: length_pad16) (simp add: pad16_def)

text \<open>
  An instance of C7 in which the vector has 9 bytes and is padded with 7 zero bytes.
\<close>

theorem generateSdmSessionKey_spec_witness:
  "(0x123456 :: nat) < 2 ^ 24
   \<and> length key80 = 16
   \<and> generateSdmSessionVector [0x3C, 0xC3] uid_example 0x123456 (Some options_no_uid) =
       Inr [0x3C, 0xC3, 0x00, 0x01, 0x00, 0x80, 0x56, 0x34, 0x12]
   \<and> generateSdmSessionKey sample_cipher key80 [0x3C, 0xC3] uid_example 0x123456 (Some options_no_uid) =
       calculateCmac sample_cipher key80
         [0x3C, 0xC3, 0x00, 0x01, 0x00, 0x80, 0x56, 0x34, 0x12, 0, 0, 0, 0, 0, 0, 0]
   \<and> generateSdmSessionKey sample_cipher key80 [0x3C, 0xC3] uid_example 0x123456 (Some options_no_uid) =
       Inr [188, 195, 0, 1, 0, 128, 86, 52, 18, 0, 0, 0, 0, 0, 0, 135]"
proof -
  have m: "(0x123456 :: nat) < 2 ^ 24" by simp
  have len: "length key80 = 16" by (simp add: key80_def)
  have v: "spec_vector [0x3C, 0xC3] uid_example 0x123456 (Some options_no_uid) =
           [0x3C, 0xC3, 0x00, 0x01, 0x00, 0x80, 0x56, 0x34, 0x12]"
    by (simp add: spec_vector_def counter_LE_example opt_uidMirroring_def opt_readCounter_def
        options_no_uid_def)
  have p: "pad16 [0x3C, 0xC3, 0x00, 0x01, 0x00, 0x80, 0x56, 0x34, 0x12] =
           [0x3C, 0xC3, 0x00, 0x01, 0x00, 0x80, 0x56, 0x34, 0x12, 0, 0, 0, 0, 0, 0, 0]"
    by code_simp
  have s: "spec_cmac sample_cipher key80
             [0x3C, 0xC3, 0x00, 0x01, 0x00, 0x80, 0x56, 0x34, 0x12, 0, 0, 0, 0, 0, 0, 0] =
           [188, 195, 0, 1, 0, 128, 86, 52, 18, 0, 0, 0, 0, 0, 0, 135]"
    by code_simp
  note t = generateSdmSessionKey_spec
         [OF m, of "[0x3C, 0xC3]" uid_example "Some options_no_uid" sample_cipher key80 "[]"]
  from t have a: "generateSdmSessionVector [0x3C, 0xC3] uid_example (real 0x123456) (Some options_no_uid) =
      Inr (spec_vector [0x3C, 0xC3] uid_example 0x123456 (Some options_no_uid))"
    by blast
  from t have b: "generateSdmSessionKey sample_cipher key80 [0x3C, 0xC3] uid_example (real 0x123456)
        (Some options_no_uid) =
      calculateCmac sample_cipher key80
        (pad16 (spec_vector [0x3C, 0xC3] uid_example 0x123456 (Some options_no_uid)))"
    by blast
  from t len have c: "generateSdmSessionKey sample_cipher key80 [0x3C, 0xC3] uid_example (real 0x123456)
        (Some options_no_uid) =
      Inr (spec_cmac sample_cipher key80
        (pad16 (spec_vector [0x3C, 0xC3] uid_example 0x123456 (Some options_no_uid))))"
    by blast
  have r: "real 0x123456 = 0x123456" by simp
  show ?thesis
    using m len a b c unfolding v p s r by blast
qed

lemma writeUIntBE3_cases:
  "(r < 0 \<or> 16777215 < r) \<and> writeUIntBE3 r = Inl ERR_OUT_OF_RANGE
   \<or> 0 \<le> r \<and> r \<le> 16777215 \<and> (\<exists>rc. writeUIntBE3 r = Inr rc)"
  by (simp add: writeUIntBE3_def Let_def)

lemma generateSdmSessionVector_Inl:
  "writeUIntBE3 r = Inl e \<Longrightarrow> generateSdmSessionVector purpose u r options = Inl e"
  by (simp add: generateSdmSessionVector_def Let_def)

lemma generateSdmSessionVector_Inr:
  "writeUIntBE3 r = Inr rc \<Longrightarrow> \<exists>v. generateSdmSessionVector purpose u r options = Inr v"
  by (simp add: generateSdmSessionVector_def Let_def)

lemma generateSdmSessionVector_error:
  "generateSdmSessionVector purpose u r options = Inl e \<longleftrightarrow>
     e = ERR_OUT_OF_RANGE \<and> (r < 0 \<or> 16777215 < r)"
proof (cases "r < 0 \<or> 16777215 < r")
  case True
  with writeUIntBE3_cases [of r] have "writeUIntBE3 r = Inl ERR_OUT_OF_RANGE" by linarith
  from generateSdmSessionVector_Inl [OF this, of purpose u options] True
  show ?thesis by auto
next
  case False
  with writeUIntBE3_cases [of r] obtain rc where "writeUIntBE3 r = Inr rc" by blast
  from generateSdmSessionVector_Inr [OF this, of purpose u options] False
  show ?thesis by auto
qed

lemma generateSdmSessionVector_total:
  "0 \<le> r \<Longrightarrow> r \<le> 16777215 \<Longrightarrow> \<exists>v. generateSdmSessionVector purpose u r options = Inr v"
  using generateSdmSessionVector_error [of purpose u r options]
  by (cases "generateSdmSessionVector purpose u r options") auto

lemma generateSdmSessionKey_out_of_range:
  "r < 0 \<or> 16777215 < r \<Longrightarrow>
   generateSdmSessionKey c k purpose u r options = Inl ERR_OUT_OF_RANGE"
  using generateSdmSessionVector_error [of purpose u r options ERR_OUT_OF_RANGE]
  by (simp add: generateSdmSessionKey_def)

lemma generateSdmSessionKey_total:
  assumes "0 \<le> r" "r \<le> 16777215" "length k = 16"
  shows "\<exists>s. generateSdmSessionKey c k purpose u r options = Inr s \<and> length s = 16"
proof -
  from generateSdmSessionVector_total [OF assms(1,2)]
  obtain v where v: "generateSdmSessionVector purpose u r options = Inr v" by blast
  show ?thesis
    unfolding generateSdmSessionKey_def v
    by (simp add: Let_def calculateCmac_eq [OF assms(3)])
qed

text \<open>
  Claim C10, as stated, fails where it says that a counter that is not an integer makes
  \<open>generateSdmSessionVector\<close> raise: the counter 1.5 is inside the range that
  \<open>writeUIntBE\<close> checks, and the vector comes back with the counter bytes of 1.
\<close>

theorem generateSdmSessionVector_fraction_counterexample:
  "generateSdmSessionVector [0x3C, 0xC3] uid_example (3 / 2) None =
     Inr [0x3C, 0xC3, 0x00, 0x01, 0x00, 0x80,
          0x04, 0x12, 0x34, 0x56, 0x78, 0x90, 0xAB, 0x01, 0x00, 0x00]"
  by (simp add: generateSdmSessionVector_def writeUIntBE3_def or_true_def uid_example_def)

text \<open>
  Claim C10, amended. \<open>generateSdmSessionVector\<close> raises a \<open>RangeError\<close> exactly when
  the counter is negative or greater than \<open>2 ^ 24 - 1\<close>, and \<open>generateSdmSessionKey\<close>
  raises it then too; a counter inside the range that is not an integer is not refused.
  For every counter from 0 to \<open>2 ^ 24 - 1\<close>, so for every integer in the range, and
  every UID, \<open>generateSdmSessionVector\<close> returns a vector and, with a 16-byte key,
  \<open>generateSdmSessionKey\<close> returns 16 bytes.
\<close>

theorem generateSdmSession_range:
  "(generateSdmSessionVector purpose u r options = Inl ERR_OUT_OF_RANGE \<longleftrightarrow> r < 0 \<or> 16777215 < r)
   \<and> (r < 0 \<or> 16777215 < r \<longrightarrow>
        generateSdmSessionKey c k purpose u r options = Inl ERR_OUT_OF_RANGE)
   \<and> (0 \<le> r \<and> r \<le> 16777215 \<longrightarrow>
        (\<exists>v. generateSdmSessionVector purpose u r options = Inr v))
   \<and> (0 \<le> r \<and> r \<le> 16777215 \<and> length k = 16 \<longrightarrow>
        (\<exists>s. generateSdmSessionKey c k purpose u r options = Inr s \<and> length s = 16))
   \<and> (m < 2 ^ 24 \<longrightarrow>
        (\<exists>v. generateSdmSessionVector purpose u (real m) options = Inr v))"
proof -
  have "\<exists>v. generateSdmSessionVector purpose u (real m) options = Inr v" if "m < 2 ^ 24"
    using generateSdmSessionVector_eq [OF that] by blast
  then show ?thesis
    using generateSdmSessionVector_error [of purpose u r options ERR_OUT_OF_RANGE]
      generateSdmSessionKey_out_of_range [of r c k purpose u options]
      generateSdmSessionVector_total [of r purpose u options]
      generateSdmSessionKey_total [of r k c purpose u options]
    by blast
qed

text \<open>
  Instances of the amended C10: the counters \<open>-1\<close> and \<open>2 ^ 24\<close> raise, and the
  counter \<open>0x123456\<close> gives a vector and, with a 16-byte key, a 16-byte session key.
\<close>

theorem generateSdmSession_range_witness:
  "generateSdmSessionVector [0x3C, 0xC3] uid_example (- 1) None = Inl ERR_OUT_OF_RANGE
   \<and> generateSdmSessionVector [0x3C, 0xC3] uid_example 16777216 None = Inl ERR_OUT_OF_RANGE
   \<and> generateSdmSessionKey sample_cipher key80 [0x3C, 0xC3] uid_example 16777216 None =
       Inl ERR_OUT_OF_RANGE
   \<and> (\<exists>v. generateSdmSessionVector [0x3C, 0xC3] uid_example 0x123456 None = Inr v)
   \<and> length key80 = 16
   \<and> (\<exists>s. generateSdmSessionKey sample_cipher key80 [0x3C, 0xC3] uid_example 0x123456 None = Inr s
            \<and> length s = 16)"
proof -
  have len: "length key80 = 16" by (simp add: key80_def)
  from generateSdmSession_range [of "[0x3C, 0xC3]" uid_example "- 1" None sample_cipher key80 0]
  have a: "generateSdmSessionVector [0x3C, 0xC3] uid_example (- 1) None = Inl ERR_OUT_OF_RANGE"
    by simp
  from generateSdmSession_range [of "[0x3C, 0xC3]" uid_example 16777216 None sample_cipher key80 0]
  have b: "generateSdmSessionVector [0x3C, 0xC3] uid_example 16777216 None = Inl ERR_OUT_OF_RANGE"
    and c: "generateSdmSessionKey sample_cipher key80 [0x3C, 0xC3] uid_example 16777216 None =
       Inl ERR_OUT_OF_RANGE"
    by simp_all
  from generateSdmSession_range [of "[0x3C, 0xC3]" uid_example "0x123456" None sample_cipher key80 0] len
  have d: "\<exists>v. generateSdmSessionVector [0x3C, 0xC3] uid_example 0x123456 None = Inr v"
    and e: "\<exists>s. generateSdmSessionKey sample_cipher key80 [0x3C, 0xC3] uid_example 0x123456 None = Inr s
            \<and> length s = 16"
    by simp_all
  from a b c d e len show ?thesis by blast
qed

lemma decryptPiccData_None_iff:
  "decryptPiccData c piccData sdmKey = None \<longleftrightarrow> \<not> 16 dvd length piccData \<or> length sdmKey \<noteq> 16"
  by (auto simp: decryptPiccData_def createCipheriv_def update_final_def dvd_eq_mod_eq_0)

lemma decryptPiccData_length:
  "decryptPiccData c piccData sdmKey = Some d \<Longrightarrow> length d = length piccData"
  by (auto simp: decryptPiccData_def createCipheriv_def split: if_splits sum.splits
      dest: update_final_length)

lemma decryptPiccData_empty:
  "decryptPiccData c [] sdmKey = (if length sdmKey = 16 then Some [] else None)"
  by (simp add: decryptPiccData_def createCipheriv_def update_final_def)

text \<open>
  Claim C8, as stated, fails for empty PICC data: its length is not a positive multiple
  of 16, and with a 16-byte key the result is the empty buffer, not absent (the
  repository's test \<open>should return empty buffer for empty input\<close> expects that).
\<close>

theorem decryptPiccData_empty_counterexample:
  "length ([] :: buffer) = 0 \<and> length key80 = 16 \<and> decryptPiccData sample_cipher [] key80 = Some []"
  by (simp add: decryptPiccData_empty key80_def)

text \<open>
  Claim C8, amended. \<open>decryptPiccData\<close> returns absent, and raises nothing, exactly
  when the length of the PICC data is not a multiple of 16 (zero is one: empty data gives
  the empty buffer) or the key does not have 16 bytes; when it returns a buffer, the
  buffer has the length of the input.
\<close>

theorem decryptPiccData_spec:
  "(decryptPiccData c piccData sdmKey = None \<longleftrightarrow>
      \<not> 16 dvd length piccData \<or> length sdmKey \<noteq> 16)
   \<and> (decryptPiccData c piccData sdmKey = Some d \<longrightarrow> length d = length piccData)
   \<and> decryptPiccData c [] sdmKey = (if length sdmKey = 16 then Some [] else None)"
  using decryptPiccData_None_iff [of c piccData sdmKey] decryptPiccData_length [of c piccData sdmKey d]
    decryptPiccData_empty [of c sdmKey]
  by blast

text \<open>
  Instances of the amended C8: one block under a 16-byte key, three bytes, and a key of
  three bytes.
\<close>

theorem decryptPiccData_spec_witness:
  "16 dvd length cmac_example \<and> length key80 = 16
   \<and> decryptPiccData sample_cipher cmac_example key80 =
       Some [0x92, 0x34, 0x56, 0x78, 0x90, 0xAB, 0xCD, 0xEF, 0x12, 0x34, 0x56, 0x78, 0x90, 0xAB, 0xCD, 0xEF]
   \<and> length [0x92 :: byte, 0x34, 0x56, 0x78, 0x90, 0xAB, 0xCD, 0xEF,
               0x12, 0x34, 0x56, 0x78, 0x90, 0xAB, 0xCD, 0xEF] = length cmac_example
   \<and> decryptPiccData sample_cipher [1, 2, 3] key80 = None
   \<and> decryptPiccData sample_cipher cmac_example [1, 2, 3] = None"
proof -
  have l: "length cmac_example = 16" "length key80 = 16"
    by (simp_all add: cmac_example_def key80_def)
  have v: "decryptPiccData sample_cipher cmac_example key80 =
       Some [0x92, 0x34, 0x56, 0x78, 0x90, 0xAB, 0xCD, 0xEF, 0x12, 0x34, 0x56, 0x78, 0x90, 0xAB, 0xCD, 0xEF]"
    by code_simp
  from decryptPiccData_spec [of sample_cipher cmac_example key80
      "[0x92, 0x34, 0x56, 0x78, 0x90, 0xAB, 0xCD, 0xEF, 0x12, 0x34, 0x56, 0x78, 0x90, 0xAB, 0xCD, 0xEF]"] v
  have a: "length [0x92 :: byte, 0x34, 0x56, 0x78, 0x90, 0xAB, 0xCD, 0xEF,
               0x12, 0x34, 0x56, 0x78, 0x90, 0xAB, 0xCD, 0xEF] = length cmac_example"
    by blast
  have "length [1, 2, 3 :: byte] = 3" by simp
  then have n3: "\<not> 16 dvd length [1, 2, 3 :: byte]" by (simp only:) simp
  from decryptPiccData_spec [of sample_cipher "[1, 2, 3]" key80 "[]"] n3
  have b: "decryptPiccData sample_cipher [1, 2, 3] key80 = None"
    by blast
  have k3: "length [1, 2, 3 :: byte] \<noteq> 16" by simp
  from decryptPiccData_spec [of sample_cipher cmac_example "[1, 2, 3]" "[]"] k3
  have c: "decryptPiccData sample_cipher cmac_example [1, 2, 3] = None"
    by blast
  from l v a b c show ?thesis by simp
qed

lemma extractUidAndCounter_long:
  assumes "10 \<le> length d"
  shows "\<exists>cd. extractUidAndCounter d = Inr (Some cd) \<and> counterInt cd < 2 ^ 24"
proof -
  have bound: "unat a + 2 ^ 8 * unat b + 2 ^ 16 * unat c < 2 ^ 24" for a b c :: byte
    using unsigned_less [of a, where ?'a = nat] unsigned_less [of b, where ?'a = nat]
      unsigned_less [of c, where ?'a = nat]
    by simp
  show ?thesis
  proof (cases "11 \<le> length d")
    case True
    from extract_tagged [OF True] bound show ?thesis by simp
  next
    case False
    with assms have "length d = 10" by simp
    from extract_untagged [OF this] bound show ?thesis by simp
  qed
qed

lemma try_no_key:
  "resolved_key env sdmKeyHex = None \<Longrightarrow>
   verifySdmAuth_try c env piccDataHex providedCmacHex sdmKeyHex =
     Inr (failure ''SDM key not configured'')"
proof -
  assume "resolved_key env sdmKeyHex = None"
  then have "falsy (if falsy sdmKeyHex then env else sdmKeyHex)"
    by (auto simp: resolved_key_def falsy_def split: if_splits)
  then show ?thesis
    unfolding verifySdmAuth_try_def Let_def by simp
qed

lemma try_key:
  assumes "resolved_key env sdmKeyHex = Some k"
  shows "(if falsy sdmKeyHex then env else sdmKeyHex) = Some k"
    and "\<not> falsy (if falsy sdmKeyHex then env else sdmKeyHex)"
  using assms by (auto simp: resolved_key_def falsy_def split: if_splits)

lemma try_decrypt_failed:
  assumes "resolved_key env sdmKeyHex = Some k"
    and "decryptPiccData c (from_hex piccDataHex) (from_hex k) = None"
  shows "verifySdmAuth_try c env piccDataHex providedCmacHex sdmKeyHex =
     Inr (failure ''PICC data decryption failed'')"
  unfolding verifySdmAuth_try_def Let_def
  using try_key [OF assms(1)] assms(2) by simp

lemma try_extract_failed:
  assumes "resolved_key env sdmKeyHex = Some k"
    and "decryptPiccData c (from_hex piccDataHex) (from_hex k) = Some d"
    and "length d < 10"
  shows "verifySdmAuth_try c env piccDataHex providedCmacHex sdmKeyHex =
     Inr (failure ''Failed to extract UID and counter'')"
  unfolding verifySdmAuth_try_def Let_def
  using try_key [OF assms(1)] assms(2) extract_short [OF assms(3)] by simp

lemma try_compared:
  assumes "resolved_key env sdmKeyHex = Some k"
    and "decryptPiccData c (from_hex piccDataHex) (from_hex k) = Some d"
    and "extractUidAndCounter d = Inr (Some cd)"
    and "generateSdmSessionKey c (from_hex k) [0x3C, 0xC3] (uid cd) (real (counterInt cd))
           (Some \<lparr>uidMirroring = Some True, readCounter = Some True\<rparr>) = Inr s"
    and "length s = 16"
  shows "verifySdmAuth_try c env piccDataHex providedCmacHex sdmKeyHex =
     Inr \<lparr>success = (upper_hex (truncateCmac (spec_cmac c s [])) = toUpperCase providedCmacHex),
          res_uid = Some (uidHex cd),
          res_counter = Some (counterInt cd),
          res_method = Some (if upper_hex (truncateCmac (spec_cmac c s [])) = toUpperCase providedCmacHex
                             then Some ''Full mirroring with empty data'' else None),
          calculatedCmac = Some (upper_hex (truncateCmac (spec_cmac c s []))),
          providedCmac = Some (toUpperCase providedCmacHex),
          error = None\<rparr>"
  unfolding verifySdmAuth_try_def Let_def
  using try_key [OF assms(1)] assms(2,3,4) calculateCmac_eq [OF assms(5), of c "[]"]
  by (simp add: alloc_def toUpperCase_toString_hex)

lemma verifySdmAuth_reached:
  assumes "comparison_reached env piccDataHex sdmKeyHex"
  shows "\<exists>(cd :: UidAndCounter) s. length s = 16 \<and>
     (\<forall>providedCmacHex.
       verifySdmAuth c env piccDataHex providedCmacHex sdmKeyHex =
         \<lparr>success = (upper_hex (truncateCmac (spec_cmac c s [])) = toUpperCase providedCmacHex),
          res_uid = Some (uidHex cd),
          res_counter = Some (counterInt cd),
          res_method = Some (if upper_hex (truncateCmac (spec_cmac c s [])) = toUpperCase providedCmacHex
                             then Some ''Full mirroring with empty data'' else None),
          calculatedCmac = Some (upper_hex (truncateCmac (spec_cmac c s []))),
          providedCmac = Some (toUpperCase providedCmacHex),
          error = None\<rparr>)"
proof -
  from assms obtain k where k: "resolved_key env sdmKeyHex = Some k"
    and lk: "length (from_hex k) = 16"
    and lp: "16 dvd length (from_hex piccDataHex)" "10 \<le> length (from_hex piccDataHex)"
    by (auto simp: comparison_reached_def split: option.splits)
  from lk lp(1) decryptPiccData_None_iff [of c "from_hex piccDataHex" "from_hex k"]
  obtain d where d: "decryptPiccData c (from_hex piccDataHex) (from_hex k) = Some d"
    by (cases "decryptPiccData c (from_hex piccDataHex) (from_hex k)") auto
  from decryptPiccData_length [OF d] lp(2) have "10 \<le> length d" by simp
  from extractUidAndCounter_long [OF this]
  obtain cd where cd: "extractUidAndCounter d = Inr (Some cd)" "counterInt cd < 2 ^ 24" by blast
  from cd(2) have r: "0 \<le> real (counterInt cd)" "real (counterInt cd) \<le> 16777215" by simp_all
  from generateSdmSessionKey_total [OF r lk]
  obtain s where s: "generateSdmSessionKey c (from_hex k) [0x3C, 0xC3] (uid cd) (real (counterInt cd))
           (Some \<lparr>uidMirroring = Some True, readCounter = Some True\<rparr>) = Inr s" "length s = 16"
    by blast
  have "verifySdmAuth c env piccDataHex providedCmacHex sdmKeyHex =
       \<lparr>success = (upper_hex (truncateCmac (spec_cmac c s [])) = toUpperCase providedCmacHex),
        res_uid = Some (uidHex cd),
        res_counter = Some (counterInt cd),
        res_method = Some (if upper_hex (truncateCmac (spec_cmac c s [])) = toUpperCase providedCmacHex
                           then Some ''Full mirroring with empty data'' else None),
        calculatedCmac = Some (upper_hex (truncateCmac (spec_cmac c s []))),
        providedCmac = Some (toUpperCase providedCmacHex),
        error = None\<rparr>" for providedCmacHex
    unfolding verifySdmAuth_def try_compared [OF k d cd(1) s, of providedCmacHex] by simp
  with s(2) show ?thesis by blast
qed

lemma verifySdmAuth_not_reached:
  assumes "\<not> comparison_reached env piccDataHex sdmKeyHex"
  shows "\<exists>msg. verifySdmAuth c env piccDataHex providedCmacHex sdmKeyHex = failure msg"
proof (cases "resolved_key env sdmKeyHex")
  case None
  have "verifySdmAuth c env piccDataHex providedCmacHex sdmKeyHex = failure ''SDM key not configured''"
    unfolding verifySdmAuth_def try_no_key [OF None] by simp
  then show ?thesis by blast
next
  case (Some k)
  show ?thesis
  proof (cases "decryptPiccData c (from_hex piccDataHex) (from_hex k)")
    case None
    have "verifySdmAuth c env piccDataHex providedCmacHex sdmKeyHex =
          failure ''PICC data decryption failed''"
      unfolding verifySdmAuth_def try_decrypt_failed [OF Some None] by simp
    then show ?thesis by blast
  next
    case (Some d)
    from Some decryptPiccData_None_iff [of c "from_hex piccDataHex" "from_hex k"]
    have "16 dvd length (from_hex piccDataHex)" "length (from_hex k) = 16" by auto
    with assms \<open>resolved_key env sdmKeyHex = Some k\<close>
    have "length (from_hex piccDataHex) < 10" by (simp add: comparison_reached_def)
    with decryptPiccData_length [OF Some] have "length d < 10" by simp
    from try_extract_failed [OF \<open>resolved_key env sdmKeyHex = Some k\<close> Some this]
    have "verifySdmAuth c env piccDataHex providedCmacHex sdmKeyHex =
          failure ''Failed to extract UID and counter''"
      unfolding verifySdmAuth_def by simp
    then show ?thesis by blast
  qed
qed

lemma verifySdmAuth_try_total:
  "\<exists>r. verifySdmAuth_try c env piccDataHex providedCmacHex sdmKeyHex = Inr r"
proof (cases "resolved_key env sdmKeyHex")
  case None
  from try_no_key [OF None] show ?thesis by blast
next
  case (Some k)
  show ?thesis
  proof (cases "decryptPiccData c (from_hex piccDataHex) (from_hex k)")
    case None
    from try_decrypt_failed [OF Some None] show ?thesis by blast
  next
    case d: (Some d)
    from d decryptPiccData_None_iff [of c "from_hex piccDataHex" "from_hex k"]
    have lk: "length (from_hex k) = 16" by auto
    show ?thesis
    proof (cases "length d < 10")
      case True
      from try_extract_failed [OF Some d True] show ?thesis by blast
    next
      case False
      then have "10 \<le> length d" by simp
      from extractUidAndCounter_long [OF this]
      obtain cd where cd: "extractUidAndCounter d = Inr (Some cd)" "counterInt cd < 2 ^ 24" by blast
      from cd(2) have r: "0 \<le> real (counterInt cd)" "real (counterInt cd) \<le> 16777215" by simp_all
      from generateSdmSessionKey_total [OF r lk]
      obtain s where s: "generateSdmSessionKey c (from_hex k) [0x3C, 0xC3] (uid cd) (real (counterInt cd))
           (Some \<lparr>uidMirroring = Some True, readCounter = Some True\<rparr>) = Inr s" "length s = 16"
        by blast
      from try_compared [OF Some d cd(1) s] show ?thesis by blast
    qed
  qed
qed

lemma toUpperCase_upper_hex_digit:
  "list_all (\<lambda>ch. toUpperCase_char ch = ch) upper_hex_digits"
  by code_simp

lemma toUpperCase_upper_hex: "toUpperCase (upper_hex buf) = upper_hex buf"
  unfolding toUpperCase_def
  using toUpperCase_upper_hex_digit set_upper_hex [of buf]
  by (intro map_idI) (auto simp: list_all_iff)

lemma upper_hex_digits_text: "set (upper_hex buf) \<subseteq> set ''0123456789ABCDEF''"
  using set_upper_hex [of buf] by (simp only: upper_hex_digits_def)

text \<open>
  Claim C2, as stated, fails on every outcome that carries an error: with no key
  given and none in the environment, the result has neither \<open>calculatedCmac\<close> nor
  \<open>providedCmac\<close>.
\<close>

theorem verifySdmAuth_no_key_counterexample:
  "calculatedCmac (verifySdmAuth sample_cipher None picc_hex ''1234567890ABCDEF'' None) = None
   \<and> providedCmac (verifySdmAuth sample_cipher None picc_hex ''1234567890ABCDEF'' None) = None
   \<and> error (verifySdmAuth sample_cipher None picc_hex ''1234567890ABCDEF'' None) =
       Some ''SDM key not configured''"
proof -
  have "resolved_key None None = None" by (simp add: resolved_key_def falsy_def)
  from try_no_key [OF this, of sample_cipher picc_hex "''1234567890ABCDEF''"]
  show ?thesis by (simp add: verifySdmAuth_def failure_def)
qed

text \<open>
  Claim C2, amended. \<open>verifySdmAuth\<close> returns both \<open>calculatedCmac\<close> and
  \<open>providedCmac\<close> exactly when it reaches the comparison, that is when a key is
  resolved that parses to 16 bytes and the PICC data parses to whole blocks of at least
  10 bytes: then \<open>calculatedCmac\<close> is 16 upper-case hexadecimal digits,
  \<open>providedCmac\<close> is the upper-cased form of the caller's \<open>providedCmacHex\<close> whatever
  its case, no error is set, and \<open>success\<close> says whether the two are equal. On every
  other input the result is a failure with an error text and neither CMAC.
\<close>

theorem verifySdmAuth_cmacs:
  "(comparison_reached env piccDataHex sdmKeyHex \<longrightarrow>
      (\<exists>cm. calculatedCmac (verifySdmAuth c env piccDataHex providedCmacHex sdmKeyHex) = Some cm
            \<and> length cm = 16 \<and> set cm \<subseteq> set ''0123456789ABCDEF'')
      \<and> providedCmac (verifySdmAuth c env piccDataHex providedCmacHex sdmKeyHex) =
          Some (toUpperCase providedCmacHex)
      \<and> error (verifySdmAuth c env piccDataHex providedCmacHex sdmKeyHex) = None
      \<and> (success (verifySdmAuth c env piccDataHex providedCmacHex sdmKeyHex) \<longleftrightarrow>
           calculatedCmac (verifySdmAuth c env piccDataHex providedCmacHex sdmKeyHex) =
           providedCmac (verifySdmAuth c env piccDataHex providedCmacHex sdmKeyHex)))
   \<and> (\<not> comparison_reached env piccDataHex sdmKeyHex \<longrightarrow>
      calculatedCmac (verifySdmAuth c env piccDataHex providedCmacHex sdmKeyHex) = None
      \<and> providedCmac (verifySdmAuth c env piccDataHex providedCmacHex sdmKeyHex) = None
      \<and> \<not> success (verifySdmAuth c env piccDataHex providedCmacHex sdmKeyHex)
      \<and> error (verifySdmAuth c env piccDataHex providedCmacHex sdmKeyHex) \<noteq> None)"
proof (cases "comparison_reached env piccDataHex sdmKeyHex")
  case True
  from verifySdmAuth_reached [OF True, of c]
  obtain cd :: UidAndCounter and s where r:
    "verifySdmAuth c env piccDataHex providedCmacHex sdmKeyHex =
       \<lparr>success = (upper_hex (truncateCmac (spec_cmac c s [])) = toUpperCase providedCmacHex),
        res_uid = Some (uidHex cd),
        res_counter = Some (counterInt cd),
        res_method = Some (if upper_hex (truncateCmac (spec_cmac c s [])) = toUpperCase providedCmacHex
                           then Some ''Full mirroring with empty data'' else None),
        calculatedCmac = Some (upper_hex (truncateCmac (spec_cmac c s []))),
        providedCmac = Some (toUpperCase providedCmacHex),
        error = None\<rparr>"
    by blast
  from True upper_hex_digits_text [of "truncateCmac (spec_cmac c s [])"]
  show ?thesis unfolding r by simp
next
  case False
  from verifySdmAuth_not_reached [OF False, of c providedCmacHex]
  obtain msg where "verifySdmAuth c env piccDataHex providedCmacHex sdmKeyHex = failure msg"
    by blast
  with False show ?thesis by (simp add: failure_def)
qed

lemma from_hex_picc: "from_hex picc_hex =
    [0x12, 0x34, 0x56, 0x78, 0x90, 0xAB, 0xCD, 0xEF, 0x12, 0x34, 0x56, 0x78, 0x90, 0xAB, 0xCD, 0xEF]"
  by code_simp

lemma from_hex_picc_zz: "from_hex picc_hex_zz = from_hex picc_hex"
  unfolding from_hex_picc by code_simp

lemma from_hex_key: "from_hex key_hex = replicate 16 0"
  by code_simp

lemma from_hex_key_zz: "from_hex (key_hex @ ''zz'') = from_hex key_hex"
  unfolding from_hex_key by code_simp

lemma from_hex_invalid: "from_hex ''invalid'' = []"
  by code_simp

lemma reached_example: "comparison_reached env picc_hex (Some key_hex)"
proof -
  have "resolved_key env (Some key_hex) = Some key_hex"
    by (simp add: resolved_key_def falsy_def key_hex_def)
  moreover have "length (from_hex picc_hex) = 16" "length (from_hex key_hex) = 16"
    unfolding from_hex_picc from_hex_key by simp_all
  ultimately show ?thesis
    by (simp add: comparison_reached_def)
qed

lemma not_reached_invalid: "\<not> comparison_reached env ''invalid'' (Some key_hex)"
proof -
  have "resolved_key env (Some key_hex) = Some key_hex"
    by (simp add: resolved_key_def falsy_def key_hex_def)
  then show ?thesis
    unfolding comparison_reached_def from_hex_invalid by simp
qed

lemma toUpperCase_example: "toUpperCase ''1234567890abcdef'' = ''1234567890ABCDEF''"
  by code_simp

text \<open>
  Instances of the amended C2: the inputs of the repository's tests, with the CMAC in
  lower case, and with PICC text that is not hexadecimal.
\<close>

theorem verifySdmAuth_cmacs_witness:
  "comparison_reached None picc_hex (Some key_hex)
   \<and> (\<exists>cm. calculatedCmac (verifySdmAuth sample_cipher None picc_hex ''1234567890abcdef'' (Some key_hex))
             = Some cm \<and> length cm = 16)
   \<and> providedCmac (verifySdmAuth sample_cipher None picc_hex ''1234567890abcdef'' (Some key_hex)) =
       Some ''1234567890ABCDEF''
   \<and> error (verifySdmAuth sample_cipher None picc_hex ''1234567890abcdef'' (Some key_hex)) = None
   \<and> \<not> comparison_reached None ''invalid'' (Some key_hex)
   \<and> calculatedCmac (verifySdmAuth sample_cipher None ''invalid'' ''invalid'' (Some key_hex)) = None
   \<and> providedCmac (verifySdmAuth sample_cipher None ''invalid'' ''invalid'' (Some key_hex)) = None
   \<and> \<not> success (verifySdmAuth sample_cipher None ''invalid'' ''invalid'' (Some key_hex))"
proof -
  note a = verifySdmAuth_cmacs [of None picc_hex "Some key_hex" sample_cipher "''1234567890abcdef''"]
  note b = verifySdmAuth_cmacs [of None "''invalid''" "Some key_hex" sample_cipher "''invalid''"]
  from a reached_example [of None]
  have a1: "\<exists>cm. calculatedCmac (verifySdmAuth sample_cipher None picc_hex ''1234567890abcdef'' (Some key_hex))
             = Some cm \<and> length cm = 16"
    and a2: "providedCmac (verifySdmAuth sample_cipher None picc_hex ''1234567890abcdef'' (Some key_hex)) =
       Some (toUpperCase ''1234567890abcdef'')"
    and a3: "error (verifySdmAuth sample_cipher None picc_hex ''1234567890abcdef'' (Some key_hex)) = None"
    by blast+
  from b not_reached_invalid [of None]
  have b1: "calculatedCmac (verifySdmAuth sample_cipher None ''invalid'' ''invalid'' (Some key_hex)) = None"
    and b2: "providedCmac (verifySdmAuth sample_cipher None ''invalid'' ''invalid'' (Some key_hex)) = None"
    and b3: "\<not> success (verifySdmAuth sample_cipher None ''invalid'' ''invalid'' (Some key_hex))"
    by blast+
  from a1 a2 a3 b1 b2 b3 reached_example [of None] not_reached_invalid [of None]
  show ?thesis unfolding toUpperCase_example by blast
qed

lemma verifySdmAuth_parsed:
  assumes "from_hex p' = from_hex p" and "from_hex k' = from_hex k" and "k \<noteq> []" and "k' \<noteq> []"
  shows "verifySdmAuth c env p' providedCmacHex (Some k') =
         verifySdmAuth c env p providedCmacHex (Some k)"
proof -
  from assms(3,4) have f: "falsy (Some k') = False" "falsy (Some k) = False"
    by (simp_all add: falsy_def)
  show ?thesis
    unfolding verifySdmAuth_def verifySdmAuth_try_def Let_def f if_False option.case assms(1,2) ..
qed

lemma verifySdmAuth_can_succeed:
  assumes "comparison_reached env piccDataHex sdmKeyHex"
  shows "\<exists>p. success (verifySdmAuth c env piccDataHex p sdmKeyHex)"
proof -
  from verifySdmAuth_reached [OF assms, of c]
  obtain cd :: UidAndCounter and s where r:
    "\<And>p. verifySdmAuth c env piccDataHex p sdmKeyHex =
       \<lparr>success = (upper_hex (truncateCmac (spec_cmac c s [])) = toUpperCase p),
        res_uid = Some (uidHex cd),
        res_counter = Some (counterInt cd),
        res_method = Some (if upper_hex (truncateCmac (spec_cmac c s [])) = toUpperCase p
                           then Some ''Full mirroring with empty data'' else None),
        calculatedCmac = Some (upper_hex (truncateCmac (spec_cmac c s []))),
        providedCmac = Some (toUpperCase p),
        error = None\<rparr>"
    by blast
  have "success (verifySdmAuth c env piccDataHex (upper_hex (truncateCmac (spec_cmac c s []))) sdmKeyHex)"
    unfolding r by (simp add: toUpperCase_upper_hex)
  then show ?thesis by blast
qed

lemma reached_example_zz: "comparison_reached env picc_hex_zz (Some key_hex)"
  using reached_example [of env]
  by (simp add: comparison_reached_def from_hex_picc_zz split: option.splits)

text \<open>
  Claim C9 says that \<open>verifySdmAuth\<close> ends with a failure and an error text at the
  parsing step whenever the PICC text or the key text is not well-formed hexadecimal.
  The code has no such step: \<open>Buffer.from(s, 'hex')\<close> stops at the first pair that is
  not hexadecimal and keeps what came before. With the two characters \<open>zz\<close> after
  the PICC text of the repository's tests, or after the key text, the call gives what it
  gives without them: it reaches the comparison, sets no error, and succeeds for the
  matching CMAC.
\<close>

theorem verifySdmAuth_malformed_hex:
  "from_hex picc_hex_zz = from_hex picc_hex
   \<and> from_hex (key_hex @ ''zz'') = from_hex key_hex
   \<and> verifySdmAuth c env picc_hex_zz providedCmacHex (Some (key_hex @ ''zz'')) =
       verifySdmAuth c env picc_hex providedCmacHex (Some key_hex)
   \<and> verifySdmAuth c env picc_hex_zz providedCmacHex (Some key_hex) =
       verifySdmAuth c env picc_hex providedCmacHex (Some key_hex)
   \<and> error (verifySdmAuth c env picc_hex_zz providedCmacHex (Some key_hex)) = None
   \<and> calculatedCmac (verifySdmAuth c env picc_hex_zz providedCmacHex (Some key_hex)) \<noteq> None
   \<and> (\<exists>p. success (verifySdmAuth c env picc_hex_zz p (Some key_hex)))"
proof -
  have ne: "key_hex \<noteq> []" "key_hex @ ''zz'' \<noteq> []" by (simp_all add: key_hex_def)
  have e1: "verifySdmAuth c env picc_hex_zz providedCmacHex (Some (key_hex @ ''zz'')) =
       verifySdmAuth c env picc_hex providedCmacHex (Some key_hex)"
    by (rule verifySdmAuth_parsed [OF from_hex_picc_zz from_hex_key_zz ne])
  have e2: "verifySdmAuth c env picc_hex_zz providedCmacHex (Some key_hex) =
       verifySdmAuth c env picc_hex providedCmacHex (Some key_hex)"
    by (rule verifySdmAuth_parsed [OF from_hex_picc_zz refl ne(1) ne(1)])
  from verifySdmAuth_reached [OF reached_example_zz [of env], of c]
  obtain cd :: UidAndCounter and s where r:
    "\<And>p. verifySdmAuth c env picc_hex_zz p (Some key_hex) =
       \<lparr>success = (upper_hex (truncateCmac (spec_cmac c s [])) = toUpperCase p),
        res_uid = Some (uidHex cd),
        res_counter = Some (counterInt cd),
        res_method = Some (if upper_hex (truncateCmac (spec_cmac c s [])) = toUpperCase p
                           then Some ''Full mirroring with empty data'' else None),
        calculatedCmac = Some (upper_hex (truncateCmac (spec_cmac c s []))),
        providedCmac = Some (toUpperCase p),
        error = None\<rparr>"
    by blast
  have e3: "error (verifySdmAuth c env picc_hex_zz providedCmacHex (Some key_hex)) = None"
    and e4: "calculatedCmac (verifySdmAuth c env picc_hex_zz providedCmacHex (Some key_hex)) \<noteq> None"
    unfolding r by simp_all
  from verifySdmAuth_can_succeed [OF reached_example_zz [of env], of c]
  have e5: "\<exists>p. success (verifySdmAuth c env picc_hex_zz p (Some key_hex))" .
  from from_hex_picc_zz from_hex_key_zz e1 e2 e3 e4 e5 show ?thesis by blast
qed

text \<open>The same at one cipher, environment and CMAC.\<close>

theorem verifySdmAuth_malformed_hex_witness:
  "verifySdmAuth sample_cipher None picc_hex_zz ''1234567890ABCDEF'' (Some key_hex) =
     verifySdmAuth sample_cipher None picc_hex ''1234567890ABCDEF'' (Some key_hex)
   \<and> error (verifySdmAuth sample_cipher None picc_hex_zz ''1234567890ABCDEF'' (Some key_hex)) = None
   \<and> (\<exists>p. success (verifySdmAuth sample_cipher None picc_hex_zz p (Some key_hex)))"
  using verifySdmAuth_malformed_hex [of sample_cipher None "''1234567890ABCDEF''"]
  by blast

end
